theory Spec2Isabelle
  imports Main "HOL-Library.Monad_Syntax"
begin

section \<open>SimTK::Array\_ (SimTKcommon/internal/Array.h)\<close>

text \<open>
  A shallow embedding of the container \<^verbatim>\<open>Array_<T,X>\<close>: a buffer pointer, the number of
  elements in use and the number of allocated slots. Element memory is an explicit heap of
  slots, so that construction, destruction, reallocation and aliasing of pointer ranges are
  visible in the model.
\<close>

subsection \<open>Index traits and integer conversions\<close>

text \<open>
  \<^verbatim>\<open>IndexTraits<X>\<close>: the size type of the container (its width and signedness) and the
  largest size allowed. The flag \<open>keep_errchk\<close> says whether the checks written with the
  macros \<^verbatim>\<open>SimTK_ERRCHK\<close>, \<^verbatim>\<open>SimTK_ERRCHK3\<close> (no \<^verbatim>\<open>_ALWAYS\<close> suffix) are compiled in.
  The macros are defined in SimTKcommon/internal/common.h, which is not among the sources at
  hand, so the flag is a parameter of the model; the \<^verbatim>\<open>_ALWAYS\<close> forms check in every build.
  What the code uses of the element type \<^verbatim>\<open>T\<close> is \<^verbatim>\<open>sizeof(T)\<close>, in \<^verbatim>\<open>allocN\<close>; it is the
  field \<open>sizeof_T\<close>. Each of the configurations below is an instantiation
  \<^verbatim>\<open>Array_<T,X>\<close>: the traits of \<^verbatim>\<open>X\<close>, the build and the size of \<^verbatim>\<open>T\<close> in bytes.
\<close>

record config =
  max_size :: int
  size_bits :: nat
  size_signed :: bool
  keep_errchk :: bool
  sizeof_T :: int

definition IndexTraits_unsigned :: "bool \<Rightarrow> int \<Rightarrow> config" where
  "IndexTraits_unsigned k s =
     \<lparr>max_size = 0x7fffffff, size_bits = 32, size_signed = False, keep_errchk = k,
      sizeof_T = s\<rparr>"

definition IndexTraits_int :: "bool \<Rightarrow> int \<Rightarrow> config" where
  "IndexTraits_int k s =
     \<lparr>max_size = 0x7fffffff, size_bits = 32, size_signed = True, keep_errchk = k,
      sizeof_T = s\<rparr>"

definition IndexTraits_unsigned_short :: "bool \<Rightarrow> int \<Rightarrow> config" where
  "IndexTraits_unsigned_short k s =
     \<lparr>max_size = 0x7fff, size_bits = 16, size_signed = False, keep_errchk = k,
      sizeof_T = s\<rparr>"

definition IndexTraits_short :: "bool \<Rightarrow> int \<Rightarrow> config" where
  "IndexTraits_short k s =
     \<lparr>max_size = 0x7fff, size_bits = 16, size_signed = True, keep_errchk = k,
      sizeof_T = s\<rparr>"

definition IndexTraits_unsigned_long_long :: "bool \<Rightarrow> int \<Rightarrow> config" where
  "IndexTraits_unsigned_long_long k s =
     \<lparr>max_size = 0x7fffffffffffffff, size_bits = 64, size_signed = False, keep_errchk = k,
      sizeof_T = s\<rparr>"

definition IndexTraits_long_long :: "bool \<Rightarrow> int \<Rightarrow> config" where
  "IndexTraits_long_long k s =
     \<lparr>max_size = 0x7fffffffffffffff, size_bits = 64, size_signed = True, keep_errchk = k,
      sizeof_T = s\<rparr>"

definition IndexTraits_unsigned_char :: "bool \<Rightarrow> int \<Rightarrow> config" where
  "IndexTraits_unsigned_char k s =
     \<lparr>max_size = 255, size_bits = 8, size_signed = False, keep_errchk = k,
      sizeof_T = s\<rparr>"

definition IndexTraits_signed_char :: "bool \<Rightarrow> int \<Rightarrow> config" where
  "IndexTraits_signed_char k s =
     \<lparr>max_size = 127, size_bits = 8, size_signed = True, keep_errchk = k,
      sizeof_T = s\<rparr>"

text \<open>The largest value of the size type itself (not the container's limit).\<close>

definition size_max :: "config \<Rightarrow> int" where
  "size_max cfg =
     (if size_signed cfg then 2 ^ (size_bits cfg - 1) - 1 else 2 ^ size_bits cfg - 1)"

definition size_min :: "config \<Rightarrow> int" where
  "size_min cfg = (if size_signed cfg then - (2 ^ (size_bits cfg - 1)) else 0)"

text \<open>
  \<open>size_type cfg v\<close> is the value a variable of the size type holds after \<open>v\<close> is stored
  in it: unsigned types wrap around, and so do the signed ones here (two's complement; for
  \<^verbatim>\<open>int\<close> and \<^verbatim>\<open>long long\<close> C++ leaves signed overflow undefined, and no theorem below
  rests on a wrapped signed value).
\<close>

definition size_type :: "config \<Rightarrow> int \<Rightarrow> int" where
  "size_type cfg v =
     (if size_signed cfg
      then (v + 2 ^ (size_bits cfg - 1)) mod 2 ^ size_bits cfg - 2 ^ (size_bits cfg - 1)
      else v mod 2 ^ size_bits cfg)"

text \<open>
  The value of an arithmetic expression over operands of the size type before it is stored:
  types narrower than \<^verbatim>\<open>int\<close> are promoted to \<^verbatim>\<open>int\<close> and do not wrap, the others
  compute in the size type.
\<close>

definition promoted :: "config \<Rightarrow> int \<Rightarrow> int" where
  "promoted cfg v = (if size_bits cfg < 32 then v else size_type cfg v)"

text \<open>\<^verbatim>\<open>ull(sz)\<close>: the cast to \<^verbatim>\<open>unsigned long long\<close>.\<close>

definition ull :: "int \<Rightarrow> int" where
  "ull sz = sz mod 2 ^ 64"

text \<open>Integer division of C++ truncates towards zero.\<close>

definition tdiv :: "int \<Rightarrow> int \<Rightarrow> int" where
  "tdiv a b = sgn a * sgn b * (\<bar>a\<bar> div \<bar>b\<bar>)"

subsection \<open>Element memory\<close>

text \<open>
  Addresses count element slots; \<open>0\<close> is the null pointer. A slot of an allocated block is
  either raw (allocated, nothing constructed in it) or holds a live element. The allocator
  hands out fresh blocks above everything allocated before (\<open>brk\<close>); a released block is
  never handed out again. \<open>None\<close> as the result of a memory operation stands for a run
  with no defined outcome: a read of a slot with no live element, a construction into a
  slot that is not raw, a destruction of a slot with no live element, a release of a
  pointer that is no block.

  Constructor and destructor calls and the calls of the allocator are what a run does
  besides changing memory, so the heap keeps them, in the order in which they happen:
  \<open>events\<close> is the list of the allocations (block and number of slots), releases,
  constructions and destructions so far, the latest last.
\<close>

type_synonym addr = int

datatype 'a slot = Raw | Live 'a

datatype event = Allocated addr int | Released addr | Constructed addr | Destructed addr

record 'a heap =
  cells :: "addr \<Rightarrow> 'a slot option"
  blocks :: "addr \<Rightarrow> int option"
  brk :: addr
  events :: "event list"

definition empty_heap :: "'a heap" where
  "empty_heap = \<lparr>cells = (\<lambda>q. None), blocks = (\<lambda>p. None), brk = 1, events = []\<rparr>"

text \<open>\<^verbatim>\<open>*p\<close>\<close>

definition deref :: "'a heap \<Rightarrow> addr \<Rightarrow> 'a option" where
  "deref h p = (case cells h p of Some (Live v) \<Rightarrow> Some v | _ \<Rightarrow> None)"

text \<open>\<^verbatim>\<open>static void copyConstruct(T* p, const T& v) {new(p) T(v);}\<close>\<close>

definition construct :: "'a heap \<Rightarrow> addr \<Rightarrow> 'a \<Rightarrow> 'a heap option" where
  "construct h p v =
     (if cells h p = Some Raw
      then Some (h\<lparr>cells := (cells h)(p := Some (Live v)),
                   events := events h @ [Constructed p]\<rparr>)
      else None)"

text \<open>
  \<^verbatim>\<open>static void destruct(T* p) {p->~T();}\<close>
  The element type is any type, so every destructor call counts as one on an object: where
  there is no live element the model gives no outcome (for a type whose destructor does
  nothing, such a call does nothing); of such a run the statements below say at most that
  it raises no error condition.
\<close>

definition destruct :: "'a heap \<Rightarrow> addr \<Rightarrow> 'a heap option" where
  "destruct h p =
     (case cells h p of
        Some (Live v) \<Rightarrow> Some (h\<lparr>cells := (cells h)(p := Some Raw),
                                   events := events h @ [Destructed p]\<rparr>)
      | _ \<Rightarrow> None)"

text \<open>
  \<^verbatim>\<open>static T* allocN(size_type n) {
    if (n==0) return 0;
    unsigned char* newdata = new unsigned char[n * sizeof(T)];
    ...
    return reinterpret_cast<T*>(newdata); }\<close>
  Null for \<open>n = 0\<close>, otherwise a fresh block. The number of bytes asked for is the product
  \<^verbatim>\<open>n * sizeof(T)\<close> computed in \<^verbatim>\<open>size_t\<close>, 64 bits wide, so it wraps at \<open>2^64\<close>; the block
  has the slots that fit into these bytes, which are \<open>n\<close> slots when the product does not
  wrap and fewer when it does. The block is a block of its own even when it
  has no slot. A negative \<open>n\<close> (possible for a signed size type) makes the product a huge
  unsigned number that operator new refuses; the model gives that run no outcome. (The
  filling of the block with \<open>0xff\<close> bytes in a debug build writes no element.)
\<close>

definition allocN :: "config \<Rightarrow> 'a heap \<Rightarrow> int \<Rightarrow> ('a heap \<times> addr) option" where
  "allocN cfg h n =
     (if n = 0 then Some (h, 0)
      else if n < 0 then None
      else
        let m = ull (n * sizeof_T cfg) div sizeof_T cfg in
        Some (h\<lparr>cells := (\<lambda>q. if brk h \<le> q \<and> q < brk h + m then Some Raw else cells h q),
                 blocks := (blocks h)(brk h := Some m),
                 brk := brk h + max 1 m,
                 events := events h @ [Allocated (brk h) m]\<rparr>, brk h))"

text \<open>\<^verbatim>\<open>freeN(p)\<close>: nothing happens for the null pointer; no destructor is called.\<close>

definition freeN :: "'a heap \<Rightarrow> addr \<Rightarrow> 'a heap option" where
  "freeN h p =
     (if p = 0 then Some h
      else case blocks h p of
        None \<Rightarrow> None
      | Some n \<Rightarrow> Some (h\<lparr>cells := (\<lambda>q. if p \<le> q \<and> q < p + n then None else cells h q),
                           blocks := (blocks h)(p := None),
                           events := events h @ [Released p]\<rparr>))"

text \<open>
  The range loops run \<^verbatim>\<open>while (b != e)\<close> with \<open>b\<close> going up; a range whose end lies below
  its begin never meets the end and runs off the allocation, so it has no outcome.

  \<^verbatim>\<open>copyConstruct(T* b, const T* e, src): while(b!=e) new(b++) T(*src++);\<close>
\<close>

function copyConstruct :: "'a heap \<Rightarrow> addr \<Rightarrow> addr \<Rightarrow> addr \<Rightarrow> 'a heap option" where
  "copyConstruct h b e src =
     (if b = e then Some h
      else if e < b then None
      else do {
        v \<leftarrow> deref h src;
        h1 \<leftarrow> construct h b v;
        copyConstruct h1 (b + 1) e (src + 1)
      })"
  by pat_completeness auto
termination
  by (relation "measure (\<lambda>(h, b, e, src). nat (e - b))") auto

text \<open>\<^verbatim>\<open>fillConstruct(T* b, const T* e, const T& v): while(b!=e) new(b++) T(v);\<close>\<close>

function fillConstruct :: "'a heap \<Rightarrow> addr \<Rightarrow> addr \<Rightarrow> 'a \<Rightarrow> 'a heap option" where
  "fillConstruct h b e v =
     (if b = e then Some h
      else if e < b then None
      else do {
        h1 \<leftarrow> construct h b v;
        fillConstruct h1 (b + 1) e v
      })"
  by pat_completeness auto
termination
  by (relation "measure (\<lambda>(h, b, e, v). nat (e - b))") auto

text \<open>
  \<^verbatim>\<open>copyConstructThenDestructSource(T* b, const T* const e, T* src):
    while(b!=e) {new(b++) T(*src); src++->~T();}\<close>
\<close>

function copyConstructThenDestructSource ::
  "'a heap \<Rightarrow> addr \<Rightarrow> addr \<Rightarrow> addr \<Rightarrow> 'a heap option" where
  "copyConstructThenDestructSource h b e src =
     (if b = e then Some h
      else if e < b then None
      else do {
        v \<leftarrow> deref h src;
        h1 \<leftarrow> construct h b v;
        h2 \<leftarrow> destruct h1 src;
        copyConstructThenDestructSource h2 (b + 1) e (src + 1)
      })"
  by pat_completeness auto
termination
  by (relation "measure (\<lambda>(h, b, e, src). nat (e - b))") auto

text \<open>\<^verbatim>\<open>destruct(T* b, const T* e): while(b!=e) b++->~T();\<close>\<close>

function destruct_range :: "'a heap \<Rightarrow> addr \<Rightarrow> addr \<Rightarrow> 'a heap option" where
  "destruct_range h b e =
     (if b = e then Some h
      else if e < b then None
      else do {
        h1 \<leftarrow> destruct h b;
        destruct_range h1 (b + 1) e
      })"
  by pat_completeness auto
termination
  by (relation "measure (\<lambda>(h, b, e). nat (e - b))") auto

declare copyConstruct.simps [simp del]
declare fillConstruct.simps [simp del]
declare copyConstructThenDestructSource.simps [simp del]
declare destruct_range.simps [simp del]

subsection \<open>The container\<close>

text \<open>
  The three data members. \<^verbatim>\<open>T* data; size_type nUsed; size_type nAllocated;\<close>
\<close>

record Array_ =
  data :: addr
  nUsed :: int
  nAllocated :: int

text \<open>\<^verbatim>\<open>Array_() : data(0), nUsed(0), nAllocated(0) {}\<close>\<close>

definition Array_default :: Array_ where
  "Array_default = \<lparr>data = 0, nUsed = 0, nAllocated = 0\<rparr>"

definition size_a :: "Array_ \<Rightarrow> int" where
  "size_a a = nUsed a"

definition capacity :: "Array_ \<Rightarrow> int" where
  "capacity a = nAllocated a"

definition empty_a :: "Array_ \<Rightarrow> bool" where
  "empty_a a \<longleftrightarrow> nUsed a = 0"

definition begin_a :: "Array_ \<Rightarrow> addr" where
  "begin_a a = data a"

definition end_a :: "Array_ \<Rightarrow> addr" where
  "end_a a = data a + nUsed a"

text \<open>Reading the elements \<open>0 .. size-1\<close> through \<^verbatim>\<open>data[i]\<close>.\<close>

definition elems :: "'a heap \<Rightarrow> Array_ \<Rightarrow> 'a option list" where
  "elems h a = map (\<lambda>i. deref h (data a + int i)) [0 ..< nat (nUsed a)]"

text \<open>
  The outcome of a member function: it returns (new state and returned value), or it raises
  one of the error conditions with the state as it is at that point, or the run has no
  defined outcome. The conditions are named as the specification names them; the source
  raises them through the \<^verbatim>\<open>SimTK_ERRCHK\<close> macros.
\<close>

datatype error = SizeLimitExceeded | InvalidRange | OutOfRange | EmptyContainerAccess

datatype ('s, 'r) result = Ok 's 'r | Raise error 's | Undefined

definition of_option :: "('s \<times> 'r) option \<Rightarrow> ('s, 'r) result" where
  "of_option m = (case m of None \<Rightarrow> Undefined | Some (s, r) \<Rightarrow> Ok s r)"

definition and_then ::
  "('s, 'r) result \<Rightarrow> ('s \<Rightarrow> 'r \<Rightarrow> ('s, 'q) result) \<Rightarrow> ('s, 'q) result" where
  "and_then m f = (case m of Ok s r \<Rightarrow> f s r | Raise e s \<Rightarrow> Raise e s | Undefined \<Rightarrow> Undefined)"

text \<open>A check written with \<^verbatim>\<open>SimTK_ERRCHK\<close> fails when it is compiled in and its condition is false.\<close>

definition errchk_fails :: "config \<Rightarrow> bool \<Rightarrow> bool" where
  "errchk_fails cfg cond \<longleftrightarrow> keep_errchk cfg \<and> \<not> cond"

subsection \<open>Size checks and the growth policy\<close>

text \<open>
  \<^verbatim>\<open>bool isSizeOK(S srcSz) const {return ull(srcSz) <= ullMaxSize();}\<close>
  \<^verbatim>\<open>bool isGrowthOK(S n) const {return isSizeOK(ullCapacity() + ull(n));}\<close>
  The sum is one of \<^verbatim>\<open>unsigned long long\<close> values, so it wraps at 64 bits.
\<close>

definition ullCapacity :: "Array_ \<Rightarrow> int" where
  "ullCapacity a = ull (capacity a)"

definition ullMaxSize :: "config \<Rightarrow> int" where
  "ullMaxSize cfg = ull (max_size cfg)"

definition isSizeOK :: "config \<Rightarrow> int \<Rightarrow> bool" where
  "isSizeOK cfg srcSz \<longleftrightarrow> ull srcSz \<le> ullMaxSize cfg"

definition isGrowthOK :: "config \<Rightarrow> Array_ \<Rightarrow> int \<Rightarrow> bool" where
  "isGrowthOK cfg a n \<longleftrightarrow> isSizeOK cfg (ull (ullCapacity a + ull n))"

text \<open>\<^verbatim>\<open>size_type minAlloc() const {return std::min(max_size(), size_type(4));}\<close>\<close>

definition minAlloc :: "config \<Rightarrow> int" where
  "minAlloc cfg = min (max_size cfg) (size_type cfg 4)"

text \<open>
  \<^verbatim>\<open>calcNewCapacityForGrowthBy(n)\<close>: the check is \<^verbatim>\<open>SimTK_ERRCHK3_ALWAYS(isGrowthOK(n), ...)\<close>.
\<close>

definition calcNewCapacityForGrowthBy :: "config \<Rightarrow> Array_ \<Rightarrow> int \<Rightarrow> error + int" where
  "calcNewCapacityForGrowthBy cfg a n =
     (if \<not> isGrowthOK cfg a n then Inl SizeLimitExceeded
      else
        let mustHave = size_type cfg (capacity a + n);
            wantToHave = (if capacity a \<le> tdiv (max_size cfg) 2
                          then size_type cfg (2 * capacity a)
                          else max_size cfg);
            newCapacity = max (max mustHave wantToHave) (minAlloc cfg)
        in Inr newCapacity)"

subsection \<open>Growing at the end, appending and removing the last element\<close>

text \<open>
  \<^verbatim>\<open>growAtEnd(n)\<close>: the new capacity is stored in \<open>nAllocated\<close> first, then the new block is
  allocated, the elements are moved over and the old block is released.
\<close>

definition growAtEnd ::
  "config \<Rightarrow> 'a heap \<Rightarrow> Array_ \<Rightarrow> int \<Rightarrow> ('a heap \<times> Array_, unit) result" where
  "growAtEnd cfg h a n =
     (case calcNewCapacityForGrowthBy cfg a n of
        Inl e \<Rightarrow> Raise e (h, a)
      | Inr c \<Rightarrow>
          let a1 = a\<lparr>nAllocated := c\<rparr> in
          of_option (do {
            (h1, newData) \<leftarrow> allocN cfg h (nAllocated a1);
            h2 \<leftarrow> copyConstructThenDestructSource h1 newData (newData + nUsed a1) (data a1);
            h3 \<leftarrow> freeN h2 (data a1);
            Some ((h3, a1\<lparr>data := newData\<rparr>), ())
          }))"

text \<open>
  \<^verbatim>\<open>T* push_back(const T& value) {
    if (nAllocated == nUsed) growAtEnd(1,"Array_<T>::push_back(elt)");
    T* const p = data + nUsed++;
    copyConstruct(p, value);
    return p; }\<close>
\<close>

definition push_back ::
  "config \<Rightarrow> 'a heap \<Rightarrow> Array_ \<Rightarrow> 'a \<Rightarrow> ('a heap \<times> Array_, addr) result" where
  "push_back cfg h a v =
     and_then (if nAllocated a = nUsed a then growAtEnd cfg h a 1 else Ok (h, a) ())
       (\<lambda>(h1, a1) u.
          let p = data a1 + nUsed a1;
              a2 = a1\<lparr>nUsed := size_type cfg (nUsed a1 + 1)\<rparr>
          in of_option (do { h2 \<leftarrow> construct h1 p v; Some ((h2, a2), p) }))"

text \<open>Appending the values of a list one after the other; the first failure ends the run.\<close>

fun push_back_all ::
  "config \<Rightarrow> 'a heap \<Rightarrow> Array_ \<Rightarrow> 'a list \<Rightarrow> ('a heap \<times> Array_, unit) result" where
  "push_back_all cfg h a [] = Ok (h, a) ()"
| "push_back_all cfg h a (v # vs) =
     and_then (push_back cfg h a v) (\<lambda>(h1, a1) p. push_back_all cfg h1 a1 vs)"

text \<open>
  \<^verbatim>\<open>void pop_back() {
    SimTK_ERRCHK(!empty(), "Array_<T>::pop_back()", "Array was empty.");
    destruct(data + --nUsed); }\<close>
\<close>

definition pop_back ::
  "config \<Rightarrow> 'a heap \<Rightarrow> Array_ \<Rightarrow> ('a heap \<times> Array_, unit) result" where
  "pop_back cfg h a =
     (if errchk_fails cfg (\<not> empty_a a) then Raise EmptyContainerAccess (h, a)
      else
        let a1 = a\<lparr>nUsed := size_type cfg (nUsed a - 1)\<rparr> in
        of_option (do { h1 \<leftarrow> destruct h (data a1 + nUsed a1); Some ((h1, a1), ()) }))"

subsection \<open>Capacity\<close>

text \<open>
  \<^verbatim>\<open>void reserve(size_type newCapacity) {
    if (nAllocated >= newCapacity) return;
    assert(newCapacity > nUsed);
    T* newdata = allocN(newCapacity);
    copyConstructThenDestructSource(newdata, newdata+nUsed, data);
    freeN(data);
    data = newdata;
    nAllocated = newCapacity; }\<close>
  There is no check against \<^verbatim>\<open>max_size()\<close> here.
\<close>

definition reserve ::
  "config \<Rightarrow> 'a heap \<Rightarrow> Array_ \<Rightarrow> int \<Rightarrow> ('a heap \<times> Array_, unit) result" where
  "reserve cfg h a newCapacity =
     (if nAllocated a \<ge> newCapacity then Ok (h, a) ()
      else of_option (do {
        (h1, newdata) \<leftarrow> allocN cfg h newCapacity;
        h2 \<leftarrow> copyConstructThenDestructSource h1 newdata (newdata + nUsed a) (data a);
        h3 \<leftarrow> freeN h2 (data a);
        Some ((h3, a\<lparr>data := newdata, nAllocated := newCapacity\<rparr>), ())
      }))"

text \<open>\<^verbatim>\<open>void clear() { destruct(begin(), end()); nUsed = 0; }\<close>\<close>

definition clear :: "'a heap \<Rightarrow> Array_ \<Rightarrow> ('a heap \<times> Array_) option" where
  "clear h a = do { h1 \<leftarrow> destruct_range h (begin_a a) (end_a a); Some (h1, a\<lparr>nUsed := 0\<rparr>) }"

text \<open>
  \<^verbatim>\<open>void allocateNoConstruct(size_type n) { data = allocN(n); nAllocated=n; }\<close>
  \<^verbatim>\<open>void deallocateNoDestruct() { freeN(data); data=0; nAllocated=0; }\<close>
  \<^verbatim>\<open>void reallocateNoDestructOrConstruct(size_type n)
    { deallocateNoDestruct(); allocateNoConstruct(n); }\<close>
\<close>

definition allocateNoConstruct ::
  "config \<Rightarrow> 'a heap \<Rightarrow> Array_ \<Rightarrow> int \<Rightarrow> ('a heap \<times> Array_) option" where
  "allocateNoConstruct cfg h a n =
     do { (h1, p) \<leftarrow> allocN cfg h n; Some (h1, a\<lparr>data := p, nAllocated := n\<rparr>) }"

definition deallocateNoDestruct :: "'a heap \<Rightarrow> Array_ \<Rightarrow> ('a heap \<times> Array_) option" where
  "deallocateNoDestruct h a =
     do { h1 \<leftarrow> freeN h (data a); Some (h1, a\<lparr>data := 0, nAllocated := 0\<rparr>) }"

definition reallocateNoDestructOrConstruct ::
  "config \<Rightarrow> 'a heap \<Rightarrow> Array_ \<Rightarrow> int \<Rightarrow> ('a heap \<times> Array_) option" where
  "reallocateNoDestructOrConstruct cfg h a n =
     do { (h1, a1) \<leftarrow> deallocateNoDestruct h a; allocateNoConstruct cfg h1 a1 n }"

text \<open>
  \<^verbatim>\<open>void reallocateIfAdvisable(size_type n) {
    if (nAllocated < n || nAllocated/2 > std::max(minAlloc(), n))
        reallocateNoDestructOrConstruct(n); }\<close>
\<close>

definition reallocateIfAdvisable ::
  "config \<Rightarrow> 'a heap \<Rightarrow> Array_ \<Rightarrow> int \<Rightarrow> ('a heap \<times> Array_) option" where
  "reallocateIfAdvisable cfg h a n =
     (if nAllocated a < n \<or> tdiv (nAllocated a) 2 > max (minAlloc cfg) n
      then reallocateNoDestructOrConstruct cfg h a n
      else Some (h, a))"

subsection \<open>Assignment\<close>

text \<open>
  The implementation for random access iterators, pointers among them. Both checks are
  written with the macros that have no \<^verbatim>\<open>_ALWAYS\<close> suffix. A source pointer reads the
  same element memory as the container; the element type of the source is the container's.
  \<^verbatim>\<open>
    SimTK_ERRCHK(first <= last1, methodName, "Iterators were out of order.");
    SimTK_ERRCHK3(isSizeOK(last1-first), methodName, ...);
    clear();
    nUsed = size_type(last1-first);
    reallocateIfAdvisable(nUsed);
    copyConstruct(data, data+nUsed, first);\<close>
\<close>

definition assignImpl ::
  "config \<Rightarrow> 'a heap \<Rightarrow> Array_ \<Rightarrow> addr \<Rightarrow> addr \<Rightarrow> ('a heap \<times> Array_, unit) result" where
  "assignImpl cfg h a first last1 =
     (if errchk_fails cfg (first \<le> last1) then Raise InvalidRange (h, a)
      else if errchk_fails cfg (isSizeOK cfg (last1 - first)) then Raise SizeLimitExceeded (h, a)
      else of_option (do {
        (h1, a1) \<leftarrow> clear h a;
        let a2 = a1\<lparr>nUsed := size_type cfg (last1 - first)\<rparr>;
        (h3, a3) \<leftarrow> reallocateIfAdvisable cfg h1 a2 (nUsed a2);
        h4 \<leftarrow> copyConstruct h3 (data a3) (data a3 + nUsed a3) first;
        Some ((h4, a3), ())
      }))"

text \<open>
  \<^verbatim>\<open>Array_& assign(const T2* first, const T2* last1)\<close>:
  \<^verbatim>\<open>
    SimTK_ERRCHK((first&&last1)||(first==last1), methodName, ...);
    SimTK_ERRCHK(last1<=begin() || end()<=first, methodName,
        "Source pointers can't be within the destination Array.");
    assignImpl(first,last1,std::random_access_iterator_tag());\<close>
\<close>

definition assign ::
  "config \<Rightarrow> 'a heap \<Rightarrow> Array_ \<Rightarrow> addr \<Rightarrow> addr \<Rightarrow> ('a heap \<times> Array_, unit) result" where
  "assign cfg h a first last1 =
     (if errchk_fails cfg ((first \<noteq> 0 \<and> last1 \<noteq> 0) \<or> first = last1)
      then Raise InvalidRange (h, a)
      else if errchk_fails cfg (last1 \<le> begin_a a \<or> end_a a \<le> first)
      then Raise InvalidRange (h, a)
      else assignImpl cfg h a first last1)"

text \<open>
  The copy assignment operator. The two containers are objects in a store, named by their
  addresses, so that \<^verbatim>\<open>this != &src\<close> is a comparison of object addresses.
  \<^verbatim>\<open>Array_& operator=(const Array_& src) {
    if (this != &src)
        assignImpl(src.begin(), src.end(), std::random_access_iterator_tag());
    return *this; }\<close>
\<close>

definition operator_assign ::
  "config \<Rightarrow> 'a heap \<Rightarrow> (nat \<Rightarrow> Array_) \<Rightarrow> nat \<Rightarrow> nat
     \<Rightarrow> ('a heap \<times> (nat \<Rightarrow> Array_), unit) result" where
  "operator_assign cfg h objs this src =
     (if this \<noteq> src
      then (case assignImpl cfg h (objs this) (begin_a (objs src)) (end_a (objs src)) of
              Ok (h1, a1) u \<Rightarrow> Ok (h1, objs(this := a1)) ()
            | Raise e (h1, a1) \<Rightarrow> Raise e (h1, objs(this := a1))
            | Undefined \<Rightarrow> Undefined)
      else Ok (h, objs) ())"

text \<open>
  The assignment from a container of another element or index type (and likewise from a
  \<^verbatim>\<open>std::vector\<close>); only begin and end of the source are used.
  \<^verbatim>\<open>template <class T2, class X2> Array_& operator=(const Array_<T2,X2>& src) {
    assignImpl(src.begin(), src.end(), std::random_access_iterator_tag());
    return *this; }\<close>
\<close>

definition operator_assign_converting ::
  "config \<Rightarrow> 'a heap \<Rightarrow> Array_ \<Rightarrow> Array_ \<Rightarrow> ('a heap \<times> Array_, unit) result" where
  "operator_assign_converting cfg h a src =
     assignImpl cfg h a (begin_a src) (end_a src)"

subsection \<open>Erasing\<close>

text \<open>
  \<^verbatim>\<open>void moveOneElement(T* to, T* from) { copyConstruct(to, *from); destruct(from); }\<close>
  (its two \<^verbatim>\<open>assert\<close>s on the slots lying in the allocation are covered by the heap).
\<close>

definition moveOneElement :: "'a heap \<Rightarrow> addr \<Rightarrow> addr \<Rightarrow> 'a heap option" where
  "moveOneElement h to from =
     do { v \<leftarrow> deref h from; h1 \<leftarrow> construct h to v; destruct h1 from }"

text \<open>
  \<^verbatim>\<open>void moveElementsDown(T* p, size_type n) {
    for (; p != end(); ++p) moveOneElement(p-n,p); }\<close>
\<close>

function moveElementsDown :: "'a heap \<Rightarrow> Array_ \<Rightarrow> addr \<Rightarrow> int \<Rightarrow> 'a heap option" where
  "moveElementsDown h a p n =
     (if p = end_a a then Some h
      else if end_a a < p then None
      else do {
        h1 \<leftarrow> moveOneElement h (p - n) p;
        moveElementsDown h1 a (p + 1) n
      })"
  by pat_completeness auto
termination
  by (relation "measure (\<lambda>(h, a, p, n). nat (end_a a - p))") auto

text \<open>
  \<^verbatim>\<open>void moveElementsUp(T* p, size_type n) {
    T* src = end();
    while (src != p) { --src; moveOneElement(src+n, src); } }\<close>
\<close>

function moveElementsUp_from :: "'a heap \<Rightarrow> addr \<Rightarrow> addr \<Rightarrow> int \<Rightarrow> 'a heap option" where
  "moveElementsUp_from h src p n =
     (if src = p then Some h
      else if src < p then None
      else do {
        h1 \<leftarrow> moveOneElement h (src - 1 + n) (src - 1);
        moveElementsUp_from h1 (src - 1) p n
      })"
  by pat_completeness auto
termination
  by (relation "measure (\<lambda>(h, src, p, n). nat (src - p))") auto

definition moveElementsUp :: "'a heap \<Rightarrow> Array_ \<Rightarrow> addr \<Rightarrow> int \<Rightarrow> 'a heap option" where
  "moveElementsUp h a p n = moveElementsUp_from h (end_a a) p n"

declare moveElementsDown.simps [simp del]
declare moveElementsUp_from.simps [simp del]

text \<open>
  \<^verbatim>\<open>T* erase(T* first, T* last1) {
    SimTK_ERRCHK(begin() <= first && first <= last1 && last1 <= end(), ...);
    const size_type nErased = size_type(last1-first);
    if (nErased) {
        destruct(first, last1);
        moveElementsDown(last1, nErased);
        nUsed -= nErased; }
    return first; }\<close>
\<close>

definition erase_range ::
  "config \<Rightarrow> 'a heap \<Rightarrow> Array_ \<Rightarrow> addr \<Rightarrow> addr \<Rightarrow> ('a heap \<times> Array_, addr) result" where
  "erase_range cfg h a first last1 =
     (if errchk_fails cfg (begin_a a \<le> first \<and> first \<le> last1 \<and> last1 \<le> end_a a)
      then Raise InvalidRange (h, a)
      else
        let nErased = size_type cfg (last1 - first) in
        if nErased \<noteq> 0
        then of_option (do {
          h1 \<leftarrow> destruct_range h first last1;
          h2 \<leftarrow> moveElementsDown h1 a last1 nErased;
          Some ((h2, a\<lparr>nUsed := size_type cfg (nUsed a - nErased)\<rparr>), first)
        })
        else Ok (h, a) first)"

text \<open>
  \<^verbatim>\<open>T* erase(T* p) {
    SimTK_ERRCHK(begin() <= p && p < end(), ...);
    destruct(p);
    moveElementsDown(p+1, 1);
    --nUsed;
    return p; }\<close>
\<close>

definition erase ::
  "config \<Rightarrow> 'a heap \<Rightarrow> Array_ \<Rightarrow> addr \<Rightarrow> ('a heap \<times> Array_, addr) result" where
  "erase cfg h a p =
     (if errchk_fails cfg (begin_a a \<le> p \<and> p < end_a a) then Raise InvalidRange (h, a)
      else of_option (do {
        h1 \<leftarrow> destruct h p;
        h2 \<leftarrow> moveElementsDown h1 a (p + 1) 1;
        Some ((h2, a\<lparr>nUsed := size_type cfg (nUsed a - 1)\<rparr>), p)
      }))"

text \<open>
  \<^verbatim>\<open>T* eraseFast(T* p) {
    assert(begin() <= p && p < end());
    destruct(p);
    if (p+1 != end()) moveOneElement(p, &back());
    --nUsed;
    return p; }\<close>
  where \<^verbatim>\<open>back()\<close> is
  \<^verbatim>\<open>{ SimTK_ERRCHK(!empty(), "Array_<T>::back()", "Array was empty."); return data[nUsed-1]; }\<close>.
  The \<^verbatim>\<open>assert\<close> is the precondition of the function; it is not part of the model.
\<close>

definition eraseFast ::
  "config \<Rightarrow> 'a heap \<Rightarrow> Array_ \<Rightarrow> addr \<Rightarrow> ('a heap \<times> Array_, addr) result" where
  "eraseFast cfg h a p =
     (case destruct h p of
        None \<Rightarrow> Undefined
      | Some h1 \<Rightarrow>
          and_then
            (if p + 1 \<noteq> end_a a
             then (if errchk_fails cfg (\<not> empty_a a) then Raise EmptyContainerAccess (h1, a)
                   else of_option (do {
                     h2 \<leftarrow> moveOneElement h1 p (data a + (nUsed a - 1));
                     Some ((h2, a), ()) }))
             else Ok (h1, a) ())
            (\<lambda>(h2, a2) u. Ok (h2, a2\<lparr>nUsed := size_type cfg (nUsed a2 - 1)\<rparr>) p))"

subsection \<open>Inserting\<close>

text \<open>
  \<^verbatim>\<open>T* insertGapAt(T* p, size_type n, const char* methodName) {
    SimTK_ERRCHK(begin() <= p && p <= end(), ...);
    if (n==0) return p;
    const size_type before = p-begin(), after = end()-p;
    if (capacity() >= size()+n) {
        moveElementsUp(p, n);
    } else {
        nAllocated = calcNewCapacityForGrowthBy(n, methodName);
        T* newdata = allocN(nAllocated);
        copyConstructThenDestructSource(newdata, newdata+before, data);
        copyConstructThenDestructSource(newdata+before+n, newdata+before+n+after, p);
        p = newdata + before;
        freeN(data);
        data = newdata; }
    return p; }\<close>
  (the locals \<^verbatim>\<open>before\<close> and \<^verbatim>\<open>after\<close> are \<open>nBefore\<close> and \<open>nAfter\<close> here).
\<close>

definition insertGapAt ::
  "config \<Rightarrow> 'a heap \<Rightarrow> Array_ \<Rightarrow> addr \<Rightarrow> int \<Rightarrow> ('a heap \<times> Array_, addr) result" where
  "insertGapAt cfg h a p n =
     (if errchk_fails cfg (begin_a a \<le> p \<and> p \<le> end_a a) then Raise InvalidRange (h, a)
      else if n = 0 then Ok (h, a) p
      else
        let nBefore = size_type cfg (p - begin_a a);
            nAfter = size_type cfg (end_a a - p)
        in
        if capacity a \<ge> promoted cfg (size_a a + n)
        then of_option (do { h1 \<leftarrow> moveElementsUp h a p n; Some ((h1, a), p) })
        else (case calcNewCapacityForGrowthBy cfg a n of
                Inl e \<Rightarrow> Raise e (h, a)
              | Inr c \<Rightarrow>
                  let a1 = a\<lparr>nAllocated := c\<rparr> in
                  of_option (do {
                    (h1, newdata) \<leftarrow> allocN cfg h (nAllocated a1);
                    h2 \<leftarrow> copyConstructThenDestructSource h1 newdata (newdata + nBefore) (data a1);
                    h3 \<leftarrow> copyConstructThenDestructSource h2 (newdata + nBefore + n)
                            (newdata + nBefore + n + nAfter) p;
                    h4 \<leftarrow> freeN h3 (data a1);
                    Some ((h4, a1\<lparr>data := newdata\<rparr>), newdata + nBefore)
                  })))"

text \<open>
  \<^verbatim>\<open>T* insert(T* p, size_type n, const T& value) {
    T* const gap = insertGapAt(p, n, "Array<T>::insert(p,n,value)");
    fillConstruct(gap, gap+n, value);
    nUsed += n;
    return gap; }\<close>
\<close>

definition insert_n ::
  "config \<Rightarrow> 'a heap \<Rightarrow> Array_ \<Rightarrow> addr \<Rightarrow> int \<Rightarrow> 'a \<Rightarrow> ('a heap \<times> Array_, addr) result" where
  "insert_n cfg h a p n v =
     and_then (insertGapAt cfg h a p n)
       (\<lambda>(h1, a1) gap. of_option (do {
          h2 \<leftarrow> fillConstruct h1 gap (gap + n) v;
          Some ((h2, a1\<lparr>nUsed := size_type cfg (nUsed a1 + n)\<rparr>), gap) }))"

text \<open>
  \<^verbatim>\<open>T* insert(T* p, const T& value) {
    T* const gap = insertGapAt(p, 1, "Array<T>::insert(p,value)");
    copyConstruct(gap, value);
    ++nUsed;
    return gap; }\<close>
\<close>

definition insert_value ::
  "config \<Rightarrow> 'a heap \<Rightarrow> Array_ \<Rightarrow> addr \<Rightarrow> 'a \<Rightarrow> ('a heap \<times> Array_, addr) result" where
  "insert_value cfg h a p v =
     and_then (insertGapAt cfg h a p 1)
       (\<lambda>(h1, a1) gap. of_option (do {
          h2 \<leftarrow> construct h1 gap v;
          Some ((h2, a1\<lparr>nUsed := size_type cfg (nUsed a1 + 1)\<rparr>), gap) }))"

text \<open>
  The implementation for random access iterators. As in the source, the number of elements
  in use is not changed here.
  \<^verbatim>\<open>
    SimTK_ERRCHK(first <= last1, methodName, "Iterators were out of order.");
    SimTK_ERRCHK3(isGrowthOK(last1-first), methodName, ...);
    const size_type n = size_type(last1-first);
    p = insertGapAt(p, n, methodName);
    copyConstruct(p, p+n, first);
    return p;\<close>
\<close>

definition insertImpl ::
  "config \<Rightarrow> 'a heap \<Rightarrow> Array_ \<Rightarrow> addr \<Rightarrow> addr \<Rightarrow> addr \<Rightarrow> ('a heap \<times> Array_, addr) result" where
  "insertImpl cfg h a p first last1 =
     (if errchk_fails cfg (first \<le> last1) then Raise InvalidRange (h, a)
      else if errchk_fails cfg (isGrowthOK cfg a (last1 - first))
      then Raise SizeLimitExceeded (h, a)
      else
        let n = size_type cfg (last1 - first) in
        and_then (insertGapAt cfg h a p n)
          (\<lambda>(h1, a1) p1. of_option (do {
             h2 \<leftarrow> copyConstruct h1 p1 (p1 + n) first;
             Some ((h2, a1), p1) })))"

text \<open>
  \<^verbatim>\<open>T* insert(T* p, T2* first, T2* last1) {
    SimTK_ERRCHK((first&&last1) || (first==last1), methodName, ...);
    SimTK_ERRCHK(last1<=begin() || end()<=first, methodName,
        "Source pointers can't be within the destination array.");
    return insertImpl(p,first,last1,std::random_access_iterator_tag()); }\<close>
\<close>

definition insert_range ::
  "config \<Rightarrow> 'a heap \<Rightarrow> Array_ \<Rightarrow> addr \<Rightarrow> addr \<Rightarrow> addr \<Rightarrow> ('a heap \<times> Array_, addr) result" where
  "insert_range cfg h a p first last1 =
     (if errchk_fails cfg ((first \<noteq> 0 \<and> last1 \<noteq> 0) \<or> first = last1)
      then Raise InvalidRange (h, a)
      else if errchk_fails cfg (last1 \<le> begin_a a \<or> end_a a \<le> first)
      then Raise InvalidRange (h, a)
      else insertImpl cfg h a p first last1)"

subsection \<open>Resizing\<close>

text \<open>
  \<^verbatim>\<open>void resize(size_type sz, const T& initVal) {
    if (sz == nUsed) return;
    if (sz == 0) {clear(); return;}
    if (sz < nUsed) { erase(&data[sz], end()); return; }
    reserve(sz);
    fillConstruct(data+nUsed, data+sz, initVal);
    nUsed = sz; }\<close>
\<close>

definition resize ::
  "config \<Rightarrow> 'a heap \<Rightarrow> Array_ \<Rightarrow> int \<Rightarrow> 'a \<Rightarrow> ('a heap \<times> Array_, unit) result" where
  "resize cfg h a sz initVal =
     (if sz = nUsed a then Ok (h, a) ()
      else if sz = 0 then of_option (do { s \<leftarrow> clear h a; Some (s, ()) })
      else if sz < nUsed a
      then and_then (erase_range cfg h a (data a + sz) (end_a a)) (\<lambda>s p. Ok s ())
      else and_then (reserve cfg h a sz)
        (\<lambda>(h1, a1) u. of_option (do {
           h2 \<leftarrow> fillConstruct h1 (data a1 + nUsed a1) (data a1 + sz) initVal;
           Some ((h2, a1\<lparr>nUsed := sz\<rparr>), ()) })))"

subsection \<open>Well-formed configurations and states\<close>

text \<open>
  The index types the model covers: a size type of 8 to 64 bits whose values include
  \<open>0 .. max_size\<close>, with \<open>max_size\<close> below \<open>2^63\<close> as for every \<^verbatim>\<open>IndexTraits\<close> of the source
  (the signed difference type has to hold every index difference).
\<close>

definition cfg_ok :: "config \<Rightarrow> bool" where
  "cfg_ok cfg \<longleftrightarrow>
     8 \<le> size_bits cfg \<and> size_bits cfg \<le> 64 \<and>
     0 \<le> max_size cfg \<and> max_size cfg \<le> size_max cfg \<and> max_size cfg < 2 ^ 63"

text \<open>
  A buffer of \<open>n\<close> elements has a number of bytes that \<^verbatim>\<open>size_t\<close> holds: the product in
  \<^verbatim>\<open>allocN\<close> does not wrap, and the block has \<open>n\<close> slots.
\<close>

definition bytes_fit :: "config \<Rightarrow> int \<Rightarrow> bool" where
  "bytes_fit cfg n \<longleftrightarrow> 0 < sizeof_T cfg \<and> n * sizeof_T cfg < 2 ^ 64"

text \<open>
  The values of the size type.
\<close>

definition representable :: "config \<Rightarrow> int \<Rightarrow> bool" where
  "representable cfg v \<longleftrightarrow> size_min cfg \<le> v \<and> v \<le> size_max cfg"

text \<open>
  Every slot of \<open>[b, e)\<close> holds a live element.
\<close>

definition live_on :: "'a heap \<Rightarrow> addr \<Rightarrow> addr \<Rightarrow> bool" where
  "live_on h b e \<longleftrightarrow> (\<forall>q. b \<le> q \<and> q < e \<longrightarrow> (\<exists>v. cells h q = Some (Live v)))"

text \<open>
  Every slot of \<open>[b, e)\<close> is allocated and holds no element.
\<close>

definition raw_on :: "'a heap \<Rightarrow> addr \<Rightarrow> addr \<Rightarrow> bool" where
  "raw_on h b e \<longleftrightarrow> (\<forall>q. b \<le> q \<and> q < e \<longrightarrow> cells h q = Some Raw)"

text \<open>
  The state of a container that owns its buffer: the counts are values of the size type with
  \<open>0 \<le> nUsed \<le> nAllocated\<close>; the buffer is null exactly when nothing is allocated and is
  otherwise a block of \<open>nAllocated\<close> slots; the slots \<open>[0, nUsed)\<close> hold live elements and the
  slots \<open>[nUsed, nAllocated)\<close> are raw.
\<close>

definition array_ok :: "config \<Rightarrow> 'a heap \<Rightarrow> Array_ \<Rightarrow> bool" where
  "array_ok cfg h a \<longleftrightarrow>
     0 \<le> nUsed a \<and> nUsed a \<le> nAllocated a \<and> nAllocated a \<le> size_max cfg \<and>
     0 < brk h \<and>
     (if nAllocated a = 0 then data a = 0
      else 0 < data a \<and> data a + nAllocated a \<le> brk h \<and>
           blocks h (data a) = Some (nAllocated a)) \<and>
     live_on h (data a) (data a + nUsed a) \<and>
     raw_on h (data a + nUsed a) (data a + nAllocated a)"

text \<open>
  The error condition an outcome raised, if any.
\<close>

definition raised :: "('s, 'r) result \<Rightarrow> error option" where
  "raised r = (case r of Raise e s \<Rightarrow> Some e | _ \<Rightarrow> None)"

text \<open>What an outcome shows of the container: the three members, and the elements read by index.\<close>

definition array_of :: "('a heap \<times> Array_, 'r) result \<Rightarrow> Array_ option" where
  "array_of r = (case r of Ok (h, a) x \<Rightarrow> Some a | _ \<Rightarrow> None)"

definition contents :: "('a heap \<times> Array_, 'r) result \<Rightarrow> 'a option list option" where
  "contents r = (case r of Ok (h, a) x \<Rightarrow> Some (elems h a) | _ \<Rightarrow> None)"

text \<open>
  The invariants of the data model as the specification lists them: (a) the length is at
  most the capacity, (b) a capacity of zero goes with the null pointer, (d) the capacity is
  at most \<open>max_size\<close>.
\<close>

definition invariants :: "config \<Rightarrow> Array_ \<Rightarrow> bool" where
  "invariants cfg a \<longleftrightarrow>
     nUsed a \<le> nAllocated a \<and>
     (if nAllocated a = 0 then data a = 0 else True) \<and>
     nAllocated a \<le> max_size cfg"

text \<open>
  The two ways in which an assignment leads from the memory \<open>h\<close> and the container \<open>a\<close> to
  \<open>h'\<close> and \<open>a'\<close>. Both destruct the former elements, from the first to the last, and then
  construct the new ones, from the first to the last. In between, the first one keeps the
  buffer and calls the allocator not at all; the second one releases the buffer (if there is
  one, and it is no block any more afterwards) and allocates one block with a slot for each
  new element (if there is any), which is the new buffer.
\<close>

definition assigned_in_place :: "'a heap \<Rightarrow> Array_ \<Rightarrow> 'a heap \<Rightarrow> Array_ \<Rightarrow> bool" where
  "assigned_in_place h a h' a' \<longleftrightarrow>
     capacity a' = capacity a \<and> data a' = data a \<and>
     events h' = events h @
       map (\<lambda>i. Destructed (data a + int i)) [0 ..< nat (size_a a)] @
       map (\<lambda>i. Constructed (data a + int i)) [0 ..< nat (size_a a')]"

definition assigned_in_new_block :: "'a heap \<Rightarrow> Array_ \<Rightarrow> 'a heap \<Rightarrow> Array_ \<Rightarrow> bool" where
  "assigned_in_new_block h a h' a' \<longleftrightarrow>
     capacity a' = size_a a' \<and>
     events h' = events h @
       map (\<lambda>i. Destructed (data a + int i)) [0 ..< nat (size_a a)] @
       (if data a = 0 then [] else [Released (data a)]) @
       (if size_a a' = 0 then [] else [Allocated (data a') (size_a a')]) @
       map (\<lambda>i. Constructed (data a' + int i)) [0 ..< nat (size_a a')] \<and>
     (if data a = 0 then True else blocks h' (data a) = None)"

text \<open>
  A container with a gap: as a well-formed state with \<open>nUsed\<close> elements \<open>xs\<close>, except that
  \<open>n\<close> raw slots starting at \<open>g\<close> stand between the elements before \<open>g\<close> and those after
  (which lie \<open>n\<close> slots further up), and the block is not empty. This is the state in which
  \<^verbatim>\<open>insertGapAt\<close> returns.
\<close>

definition gapped :: "config \<Rightarrow> 'a heap \<Rightarrow> Array_ \<Rightarrow> addr \<Rightarrow> int \<Rightarrow> 'a option list \<Rightarrow> bool" where
  "gapped cfg h a g n xs \<longleftrightarrow>
     0 \<le> nUsed a \<and> 0 < n \<and> nUsed a + n \<le> nAllocated a \<and> nAllocated a \<le> size_max cfg \<and>
     0 < brk h \<and> 0 < data a \<and> data a + nAllocated a \<le> brk h \<and>
     blocks h (data a) = Some (nAllocated a) \<and>
     data a \<le> g \<and> g \<le> data a + nUsed a \<and>
     live_on h (data a) g \<and> raw_on h g (g + n) \<and> live_on h (g + n) (data a + nUsed a + n) \<and>
     raw_on h (data a + nUsed a + n) (data a + nAllocated a) \<and>
     length xs = nat (nUsed a) \<and>
     (\<forall>t. 0 \<le> t \<and> t < nUsed a \<longrightarrow>
          xs ! nat t = deref h (if data a + t < g then data a + t else data a + t + n))"

section \<open>Properties\<close>

subsection \<open>Integer conversions and the growth policy\<close>

lemma size_type_id:
  assumes "cfg_ok cfg" "representable cfg v"
  shows "size_type cfg v = v"
proof (cases "size_signed cfg")
  case False
  then show ?thesis
    using assms(2) by (simp add: representable_def size_type_def size_min_def size_max_def)
next
  case True
  have "0 < size_bits cfg" using assms(1) by (simp add: cfg_ok_def)
  then have p: "(2::int) ^ size_bits cfg = 2 * 2 ^ (size_bits cfg - 1)"
    by (cases "size_bits cfg") simp_all
  define B :: int where "B = 2 ^ (size_bits cfg - 1)"
  have "- B \<le> v" "v < B"
    using assms(2) True by (simp_all add: representable_def size_min_def size_max_def B_def)
  then have "(v + B) mod (2 * B) = v + B" by simp
  then show ?thesis using True p by (simp add: size_type_def B_def)
qed

lemma pow_bits_ge: "8 \<le> n \<Longrightarrow> (256::int) \<le> 2 ^ n"
proof -
  assume "8 \<le> n"
  then have "(2::int) ^ 8 \<le> 2 ^ n" by (rule power_increasing) simp
  then show ?thesis by simp
qed

lemma pow_bits_le: "n \<le> 64 \<Longrightarrow> (2::int) ^ n \<le> 2 ^ 64"
  by (rule power_increasing) simp_all

lemma size_max_ge: "cfg_ok cfg \<Longrightarrow> 127 \<le> size_max cfg"
proof -
  assume ok: "cfg_ok cfg"
  then have b: "8 \<le> size_bits cfg" by (simp add: cfg_ok_def)
  have "(2::int) ^ 7 \<le> 2 ^ (size_bits cfg - 1)" using b by (intro power_increasing) auto
  moreover have "(2::int) ^ 7 \<le> 2 ^ size_bits cfg" using b by (intro power_increasing) auto
  ultimately show ?thesis by (simp add: size_max_def)
qed

lemma size_max_lt: "cfg_ok cfg \<Longrightarrow> size_max cfg < 2 ^ 64"
proof -
  assume ok: "cfg_ok cfg"
  then have b: "size_bits cfg \<le> 64" by (simp add: cfg_ok_def)
  have "(2::int) ^ (size_bits cfg - 1) \<le> 2 ^ 64" using b by (intro power_increasing) auto
  moreover have "(2::int) ^ size_bits cfg \<le> 2 ^ 64" using b by (intro power_increasing) auto
  ultimately show ?thesis by (simp add: size_max_def)
qed

lemma size_max_nonneg: "0 \<le> size_max cfg"
  by (simp add: size_max_def)

lemma size_min_le: "size_min cfg \<le> 0"
  by (simp add: size_min_def)

lemma representable_nonneg: "0 \<le> v \<Longrightarrow> v \<le> size_max cfg \<Longrightarrow> representable cfg v"
  using size_min_le [of cfg] by (simp add: representable_def)

lemma ull_id: "0 \<le> v \<Longrightarrow> v < 2 ^ 64 \<Longrightarrow> ull v = v"
  by (simp add: ull_def)

lemma tdiv_nonneg: "0 \<le> a \<Longrightarrow> tdiv a 2 = a div 2"
  by (cases "a = 0") (simp_all add: tdiv_def)

lemma minAlloc_eq: "cfg_ok cfg \<Longrightarrow> minAlloc cfg = min (max_size cfg) 4"
  using size_max_ge [of cfg] by (simp add: minAlloc_def size_type_id representable_nonneg)

lemma isSizeOK_iff:
  "cfg_ok cfg \<Longrightarrow> 0 \<le> v \<Longrightarrow> v < 2 ^ 64 \<Longrightarrow> isSizeOK cfg v \<longleftrightarrow> v \<le> max_size cfg"
  by (simp add: isSizeOK_def ullMaxSize_def ull_id cfg_ok_def)

lemma isGrowthOK_iff:
  assumes "cfg_ok cfg" "0 \<le> capacity a" "0 \<le> n" "capacity a + n < 2 ^ 64"
  shows "isGrowthOK cfg a n \<longleftrightarrow> capacity a + n \<le> max_size cfg"
proof -
  have "ull (capacity a) = capacity a" "ull n = n" using assms by (simp_all add: ull_id)
  then show ?thesis using assms by (simp add: isGrowthOK_def ullCapacity_def isSizeOK_iff ull_id)
qed

lemma calcNewCapacityForGrowthBy_eq:
  assumes "cfg_ok cfg" "0 \<le> capacity a" "0 \<le> n" "capacity a + n < 2 ^ 64"
  shows "calcNewCapacityForGrowthBy cfg a n =
           (if capacity a + n \<le> max_size cfg
            then Inr (max (max (capacity a + n) (min (2 * capacity a) (max_size cfg)))
                          (min 4 (max_size cfg)))
            else Inl SizeLimitExceeded)"
proof (cases "capacity a + n \<le> max_size cfg")
  case False
  then show ?thesis using assms by (simp add: calcNewCapacityForGrowthBy_def isGrowthOK_iff)
next
  case True
  have m: "max_size cfg \<le> size_max cfg" "0 \<le> max_size cfg" using assms by (simp_all add: cfg_ok_def)
  have 1: "size_type cfg (capacity a + n) = capacity a + n"
    using True m assms by (intro size_type_id representable_nonneg) auto
  have 2: "capacity a \<le> max_size cfg div 2 \<Longrightarrow> size_type cfg (2 * capacity a) = 2 * capacity a"
    using m assms by (intro size_type_id representable_nonneg) auto
  show ?thesis
    using True assms m 1 2
    by (auto simp: calcNewCapacityForGrowthBy_def isGrowthOK_iff tdiv_nonneg minAlloc_eq Let_def min_def max_def)
qed

lemma deref_Live: "cells h p = Some (Live v) \<Longrightarrow> deref h p = Some v"
  by (simp add: deref_def)

lemma construct_Raw:
  "cells h p = Some Raw \<Longrightarrow> construct h p v = Some (h\<lparr>cells := (cells h)(p := Some (Live v)), events := events h @ [Constructed (p)]\<rparr>)"
  by (simp add: construct_def)

lemma destruct_Live:
  "cells h p = Some (Live v) \<Longrightarrow> destruct h p = Some (h\<lparr>cells := (cells h)(p := Some Raw), events := events h @ [Destructed (p)]\<rparr>)"
  by (simp add: destruct_def)

lemma construct_events: "construct h p v = Some h' \<Longrightarrow> events h' = events h @ [Constructed p]"
  by (auto simp: construct_def split: if_splits)

lemma destruct_events: "destruct h p = Some h' \<Longrightarrow> events h' = events h @ [Destructed p]"
  by (auto simp: destruct_def split: option.splits slot.splits)

lemma freeN_events:
  "freeN h p = Some h' \<Longrightarrow> events h' = events h @ (if p = 0 then [] else [Released p])"
  by (auto simp: freeN_def split: if_splits option.splits)

lemma bytes_fit_mono: "bytes_fit cfg n \<Longrightarrow> m \<le> n \<Longrightarrow> bytes_fit cfg m"
proof -
  assume f: "bytes_fit cfg n" and le: "m \<le> n"
  from f have s: "0 \<le> sizeof_T cfg" by (simp add: bytes_fit_def)
  have "m * sizeof_T cfg \<le> n * sizeof_T cfg" using le s by (rule mult_right_mono)
  moreover from f have "n * sizeof_T cfg < 2 ^ 64" by (simp add: bytes_fit_def)
  ultimately have "m * sizeof_T cfg < 2 ^ 64" by (rule le_less_trans)
  moreover from f have "0 < sizeof_T cfg" by (simp add: bytes_fit_def)
  ultimately show ?thesis unfolding bytes_fit_def by (rule conjI [rotated])
qed

lemma allocN_fits:
  assumes n: "0 < n" and f: "bytes_fit cfg n"
  shows "allocN cfg h n =
           Some (h\<lparr>cells := (\<lambda>q. if brk h \<le> q \<and> q < brk h + n then Some Raw else cells h q),
                    blocks := (blocks h)(brk h := Some n),
                    brk := brk h + n,
                    events := events h @ [Allocated (brk h) n]\<rparr>, brk h)"
proof -
  from f have s: "0 < sizeof_T cfg" "n * sizeof_T cfg < 2 ^ 64" by (simp_all add: bytes_fit_def)
  have "0 \<le> n * sizeof_T cfg" using n s(1) by simp
  then have "ull (n * sizeof_T cfg) = n * sizeof_T cfg" using s(2) by (simp add: ull_id)
  moreover have "n * sizeof_T cfg div sizeof_T cfg = n" using s(1) by simp
  moreover have "max 1 n = n" using n by simp
  ultimately show ?thesis using n by (simp add: allocN_def Let_def)
qed

lemma live_onD: "live_on h b e \<Longrightarrow> b \<le> q \<Longrightarrow> q < e \<Longrightarrow> \<exists>v. cells h q = Some (Live v)"
  by (simp add: live_on_def)

lemma raw_onD: "raw_on h b e \<Longrightarrow> b \<le> q \<Longrightarrow> q < e \<Longrightarrow> cells h q = Some Raw"
  by (simp add: raw_on_def)

lemma live_raw_distinct:
  "live_on h b e \<Longrightarrow> raw_on h b' e' \<Longrightarrow> b \<le> q \<Longrightarrow> q < e \<Longrightarrow> b' \<le> q' \<Longrightarrow> q' < e' \<Longrightarrow> q \<noteq> q'"
  by (auto simp: live_on_def raw_on_def)

lemma copyConstructThenDestructSource_spec:
  "b \<le> e \<Longrightarrow> live_on h src (src + (e - b)) \<Longrightarrow> raw_on h b e \<Longrightarrow>
   \<exists>h'. copyConstructThenDestructSource h b e src = Some h' \<and>
        blocks h' = blocks h \<and> brk h' = brk h \<and>
        (\<forall>q. cells h' q =
           (if b \<le> q \<and> q < e then cells h (src + (q - b))
            else if src \<le> q \<and> q < src + (e - b) then Some Raw
            else cells h q))"
proof (induction h b e src rule: copyConstructThenDestructSource.induct)
  case (1 h b e src)
  show ?case
  proof (cases "b = e")
    case True
    then show ?thesis by (subst copyConstructThenDestructSource.simps) auto
  next
    case False
    with "1.prems" have lt: "b < e" by simp
    from "1.prems"(2) lt obtain v where v: "cells h src = Some (Live v)"
      by (auto simp: live_on_def)
    from "1.prems"(3) lt have r: "cells h b = Some Raw" by (simp add: raw_on_def)
    from v r have ne: "src \<noteq> b" by auto
    define h1 where "h1 = h\<lparr>cells := (cells h)(b := Some (Live v)), events := events h @ [Constructed (b)]\<rparr>"
    define h2 where "h2 = h1\<lparr>cells := (cells h1)(src := Some Raw), events := events h1 @ [Destructed (src)]\<rparr>"
    have c1: "construct h b v = Some h1" using r by (simp add: construct_Raw h1_def)
    have d1: "destruct h1 src = Some h2"
      using v ne by (simp add: destruct_Live h1_def h2_def)
    have cells2: "\<And>q. cells h2 q = (if q = src then Some Raw else if q = b then Some (Live v) else cells h q)"
      by (simp add: h2_def h1_def)
    have live2: "live_on h2 (src + 1) (src + 1 + (e - (b + 1)))"
      unfolding live_on_def
    proof (intro allI impI)
      fix q assume q: "src + 1 \<le> q \<and> q < src + 1 + (e - (b + 1))"
      then have "src \<le> q" "q < src + (e - b)" by auto
      from live_onD [OF "1.prems"(2) this] obtain w where w: "cells h q = Some (Live w)" ..
      with r have "q \<noteq> b" by auto
      with q w show "\<exists>v. cells h2 q = Some (Live v)" by (simp add: cells2)
    qed
    have raw2: "raw_on h2 (b + 1) e"
      unfolding raw_on_def
    proof (intro allI impI)
      fix q assume q: "b + 1 \<le> q \<and> q < e"
      then have w: "cells h q = Some Raw" using "1.prems"(3) by (simp add: raw_on_def)
      with v have "q \<noteq> src" by auto
      with q w show "cells h2 q = Some Raw" by (simp add: cells2)
    qed
    from "1.IH" [OF False _ deref_Live [OF v] c1 d1 _ live2 raw2] lt
    obtain h' where h': "copyConstructThenDestructSource h2 (b + 1) e (src + 1) = Some h'"
      "blocks h' = blocks h2" "brk h' = brk h2"
      "\<And>q. cells h' q =
           (if b + 1 \<le> q \<and> q < e then cells h2 (src + 1 + (q - (b + 1)))
            else if src + 1 \<le> q \<and> q < src + 1 + (e - (b + 1)) then Some Raw
            else cells h2 q)"
      by auto
    have run: "copyConstructThenDestructSource h b e src = Some h'"
      using lt False h'(1) c1 d1 deref_Live [OF v]
      by (subst copyConstructThenDestructSource.simps) simp
    have cells': "cells h' q =
           (if b \<le> q \<and> q < e then cells h (src + (q - b))
            else if src \<le> q \<and> q < src + (e - b) then Some Raw
            else cells h q)" for q
    proof (cases "b + 1 \<le> q \<and> q < e")
      case True
      then have in_src: "src \<le> src + (q - b) \<and> src + (q - b) < src + (e - b)" by auto
      from live_onD [OF "1.prems"(2) conjunct1 [OF this] conjunct2 [OF this]]
      obtain w where w: "cells h (src + (q - b)) = Some (Live w)" ..
      have "src + (q - b) \<noteq> b"
      proof
        assume "src + (q - b) = b"
        with w r show False by simp
      qed
      moreover have "src + (q - b) \<noteq> src" using True by auto
      moreover have "src + 1 + (q - (b + 1)) = src + (q - b)" by simp
      ultimately show ?thesis using True by (simp add: h'(4) cells2)
    next
      case nin: False
      show ?thesis
      proof (cases "q = b")
        case True
        have "\<not> (src \<le> b \<and> b < src + (e - b))"
          using r live_onD [OF "1.prems"(2), of b] by auto
        then show ?thesis using True lt ne v by (auto simp: h'(4) cells2)
      next
        case qb: False
        then show ?thesis using nin lt by (auto simp: h'(4) cells2)
      qed
    qed
    show ?thesis using run h'(2,3) cells' by (simp add: h1_def h2_def)
  qed
qed

lemma elems_cong:
  assumes "nUsed a' = nUsed a"
    and "\<And>i. 0 \<le> i \<Longrightarrow> i < nUsed a \<Longrightarrow> cells h' (data a' + i) = cells h (data a + i)"
  shows "elems h' a' = elems h a"
  using assms by (auto simp: elems_def deref_def)

lemma move_to_new_block:
  assumes ok: "array_ok cfg h a" and c: "nAllocated a < c" "c \<le> size_max cfg"
    and bf: "bytes_fit cfg c"
  shows "\<exists>h1 h2 h3.
           allocN cfg h c = Some (h1, brk h) \<and>
           copyConstructThenDestructSource h1 (brk h) (brk h + nUsed a) (data a) = Some h2 \<and>
           freeN h2 (data a) = Some h3 \<and>
           array_ok cfg h3 (a\<lparr>data := brk h, nAllocated := c\<rparr>) \<and>
           elems h3 (a\<lparr>data := brk h, nAllocated := c\<rparr>) = elems h a \<and>
           brk h3 = brk h + c \<and>
           (\<forall>q. q < brk h \<and> \<not> (data a \<le> q \<and> q < data a + nAllocated a) \<longrightarrow>
                cells h3 q = cells h q) \<and>
           (data a \<noteq> 0 \<longrightarrow> blocks h3 (data a) = None)"
proof -
  from ok have u: "0 \<le> nUsed a" "nUsed a \<le> nAllocated a" and bp: "0 < brk h"
    and live: "live_on h (data a) (data a + nUsed a)"
    and raw: "raw_on h (data a + nUsed a) (data a + nAllocated a)"
    by (simp_all add: array_ok_def)
  from ok have blk: "nAllocated a \<noteq> 0 \<Longrightarrow>
      0 < data a \<and> data a + nAllocated a \<le> brk h \<and> blocks h (data a) = Some (nAllocated a)"
    and nul: "nAllocated a = 0 \<Longrightarrow> data a = 0"
    by (simp_all add: array_ok_def split: if_splits)
  have cpos: "0 < c" using u c by simp
  have below: "data a + nUsed a \<le> brk h"
  proof (cases "nAllocated a = 0")
    case True then show ?thesis using nul u bp by simp
  next
    case False then show ?thesis using blk u by simp
  qed
  define h1 where "h1 = h\<lparr>cells := (\<lambda>q. if brk h \<le> q \<and> q < brk h + c then Some Raw else cells h q),
                   blocks := (blocks h)(brk h := Some c), brk := brk h + c,
                   events := events h @ [Allocated (brk h) c]\<rparr>"
  have a1: "allocN cfg h c = Some (h1, brk h)" using allocN_fits [OF cpos bf] by (simp add: h1_def)
  have cells1: "\<And>q. cells h1 q = (if brk h \<le> q \<and> q < brk h + c then Some Raw else cells h q)"
    by (simp add: h1_def)
  have live1: "live_on h1 (data a) (data a + (brk h + nUsed a - brk h))"
    using live below by (auto simp: live_on_def cells1)
  have raw1: "raw_on h1 (brk h) (brk h + nUsed a)"
    using u c by (auto simp: raw_on_def cells1)
  from copyConstructThenDestructSource_spec [OF _ live1 raw1] u
  obtain h2 where h2: "copyConstructThenDestructSource h1 (brk h) (brk h + nUsed a) (data a) = Some h2"
    "blocks h2 = blocks h1" "brk h2 = brk h1"
    "\<And>q. cells h2 q =
           (if brk h \<le> q \<and> q < brk h + nUsed a then cells h1 (data a + (q - brk h))
            else if data a \<le> q \<and> q < data a + (brk h + nUsed a - brk h) then Some Raw
            else cells h1 q)"
    by auto
  define h3 where "h3 = (if data a = 0 then h2 else
      h2\<lparr>cells := (\<lambda>q. if data a \<le> q \<and> q < data a + nAllocated a then None else cells h2 q),
         blocks := (blocks h2)(data a := None), events := events h2 @ [Released (data a)]\<rparr>)"
  have f3: "freeN h2 (data a) = Some h3"
  proof (cases "nAllocated a = 0")
    case True then show ?thesis using nul by (simp add: freeN_def h3_def)
  next
    case False
    with blk have "0 < data a" "data a \<noteq> brk h" "blocks h (data a) = Some (nAllocated a)"
      using u by auto
    then show ?thesis by (simp add: freeN_def h3_def h2(2) h1_def)
  qed
  have d0: "data a = 0 \<Longrightarrow> nAllocated a = 0" using blk by auto
  have cells3: "cells h3 q =
      (if data a \<le> q \<and> q < data a + nAllocated a then None else cells h2 q)" for q
    using d0 by (auto simp: h3_def)
  have old_below: "data a + nAllocated a \<le> brk h"
    using blk nul bp by (cases "nAllocated a = 0") auto
  have new3: "cells h3 q = (if q < brk h + nUsed a then cells h (data a + (q - brk h)) else Some Raw)"
    if "brk h \<le> q" "q < brk h + c" for q
  proof -
    have "\<not> (data a \<le> q \<and> q < data a + nAllocated a)" using that old_below by auto
    moreover have "\<not> (data a \<le> q \<and> q < data a + (brk h + nUsed a - brk h))"
      using that below by auto
    moreover have "q < brk h + nUsed a \<Longrightarrow> data a + (q - brk h) < brk h"
      using below by auto
    ultimately show ?thesis using that by (auto simp: cells3 h2(4) cells1)
  qed
  let ?a' = "a\<lparr>data := brk h, nAllocated := c\<rparr>"
  have live3: "live_on h3 (data ?a') (data ?a' + nUsed ?a')"
    unfolding live_on_def
  proof (intro allI impI)
    fix q assume q: "data ?a' \<le> q \<and> q < data ?a' + nUsed ?a'"
    then have "brk h \<le> q" "q < brk h + c" "q < brk h + nUsed a" using u c by auto
    then have "cells h3 q = cells h (data a + (q - brk h))" by (simp add: new3)
    moreover have "\<exists>v. cells h (data a + (q - brk h)) = Some (Live v)"
      using q by (intro live_onD [OF live]) auto
    ultimately show "\<exists>v. cells h3 q = Some (Live v)" by simp
  qed
  have raw3: "raw_on h3 (data ?a' + nUsed ?a') (data ?a' + nAllocated ?a')"
    unfolding raw_on_def
  proof (intro allI impI)
    fix q assume q: "data ?a' + nUsed ?a' \<le> q \<and> q < data ?a' + nAllocated ?a'"
    then have "brk h \<le> q" "q < brk h + c" "\<not> q < brk h + nUsed a" using u by auto
    then show "cells h3 q = Some Raw" by (simp add: new3)
  qed
  have ne: "data a \<noteq> brk h"
    using blk nul bp u by (cases "nAllocated a = 0") auto
  have blocks3: "blocks h3 (brk h) = Some c"
    using ne by (simp add: h3_def h2(2) h1_def)
  have brk3: "brk h3 = brk h + c" by (simp add: h3_def h2(3) h1_def)
  have ok3: "array_ok cfg h3 ?a'"
    using u c cpos bp live3 raw3 blocks3 brk3 by (simp add: array_ok_def)
  have el: "elems h3 ?a' = elems h a"
  proof (rule elems_cong)
    show "nUsed ?a' = nUsed a" by simp
  next
    fix i assume "0 \<le> i" "i < nUsed a"
    then show "cells h3 (data ?a' + i) = cells h (data a + i)"
      using u c by (simp add: new3)
  qed
  have frame: "\<forall>q. q < brk h \<and> \<not> (data a \<le> q \<and> q < data a + nAllocated a) \<longrightarrow>
                cells h3 q = cells h q"
    using u by (auto simp: cells3 h2(4) cells1)
  have gone: "data a \<noteq> 0 \<longrightarrow> blocks h3 (data a) = None" by (simp add: h3_def)
  show ?thesis using a1 h2(1) f3 ok3 el brk3 frame gone by blast
qed

lemma Array_update_swap:
  "a\<lparr>nAllocated := c, data := p\<rparr> = a\<lparr>data := p, nAllocated := c\<rparr>"
  by simp

lemma growAtEnd_spec:
  assumes cfg: "cfg_ok cfg" and ok: "array_ok cfg h a" and n: "0 < n"
    and fits: "nAllocated a + n \<le> max_size cfg"
    and bf: "bytes_fit cfg (max (max (nAllocated a + n) (min (2 * nAllocated a) (max_size cfg)))
                               (min 4 (max_size cfg)))"
  shows "\<exists>h' a'. growAtEnd cfg h a n = Ok (h', a') () \<and> array_ok cfg h' a' \<and>
           nUsed a' = nUsed a \<and> elems h' a' = elems h a \<and>
           nAllocated a' = max (max (nAllocated a + n) (min (2 * nAllocated a) (max_size cfg)))
                               (min 4 (max_size cfg)) \<and>
           nAllocated a + n \<le> nAllocated a' \<and> nAllocated a' \<le> max_size cfg \<and>
           data a' = brk h \<and> brk h \<le> brk h' \<and>
           (\<forall>q. q < brk h \<and> \<not> (data a \<le> q \<and> q < data a + nAllocated a) \<longrightarrow>
                cells h' q = cells h q)"
proof -
  define c where "c = max (max (nAllocated a + n) (min (2 * nAllocated a) (max_size cfg)))
                               (min 4 (max_size cfg))"
  from ok have u: "0 \<le> nUsed a" "nUsed a \<le> nAllocated a" by (simp_all add: array_ok_def)
  from cfg have m: "max_size cfg \<le> size_max cfg" "max_size cfg < 2 ^ 63"
    by (simp_all add: cfg_ok_def)
  have calc: "calcNewCapacityForGrowthBy cfg a n = Inr c"
    using calcNewCapacityForGrowthBy_eq [OF cfg, of a n] u n fits m
    by (simp add: capacity_def c_def)
  have cb: "nAllocated a + n \<le> c" "c \<le> max_size cfg" using fits by (auto simp: c_def)
  then have "nAllocated a < c" "c \<le> size_max cfg" using n m by auto
  moreover have "bytes_fit cfg c" using bf by (simp add: c_def)
  ultimately obtain h1 h2 h3 where r:
    "allocN cfg h c = Some (h1, brk h)"
    "copyConstructThenDestructSource h1 (brk h) (brk h + nUsed a) (data a) = Some h2"
    "freeN h2 (data a) = Some h3"
    "array_ok cfg h3 (a\<lparr>data := brk h, nAllocated := c\<rparr>)"
    "elems h3 (a\<lparr>data := brk h, nAllocated := c\<rparr>) = elems h a"
    "brk h3 = brk h + c"
    "\<forall>q. q < brk h \<and> \<not> (data a \<le> q \<and> q < data a + nAllocated a) \<longrightarrow> cells h3 q = cells h q"
    using move_to_new_block [OF ok] by blast
  have run: "growAtEnd cfg h a n = Ok (h3, a\<lparr>data := brk h, nAllocated := c\<rparr>) ()"
    using calc r(1,2,3) by (simp add: growAtEnd_def of_option_def Array_update_swap)
  have "0 \<le> c" using cb u n by simp
  then have "brk h \<le> brk h3" using r(6) by simp
  with run r(4,5,7) cb show ?thesis
    unfolding c_def [symmetric]
    by (intro exI [of _ h3] exI [of _ "a\<lparr>data := brk h, nAllocated := c\<rparr>"]) simp
qed

lemma construct_at_end:
  assumes cfg: "cfg_ok cfg" and ok: "array_ok cfg h a" and room: "nUsed a < nAllocated a"
  shows "\<exists>h'. construct h (data a + nUsed a) v = Some h' \<and>
           array_ok cfg h' (a\<lparr>nUsed := nUsed a + 1\<rparr>) \<and>
           elems h' (a\<lparr>nUsed := nUsed a + 1\<rparr>) = elems h a @ [Some v] \<and>
           brk h' = brk h \<and> (\<forall>q. q \<noteq> data a + nUsed a \<longrightarrow> cells h' q = cells h q)"
proof -
  from ok have u: "0 \<le> nUsed a"
    and live: "live_on h (data a) (data a + nUsed a)"
    and raw: "raw_on h (data a + nUsed a) (data a + nAllocated a)"
    by (simp_all add: array_ok_def)
  have r: "cells h (data a + nUsed a) = Some Raw" using raw room by (simp add: raw_on_def)
  define h' where "h' = h\<lparr>cells := (cells h)(data a + nUsed a := Some (Live v)),
                           events := events h @ [Constructed (data a + nUsed a)]\<rparr>"
  have c: "construct h (data a + nUsed a) v = Some h'" using r by (simp add: construct_Raw h'_def)
  have live': "live_on h' (data a) (data a + (nUsed a + 1))"
    using live by (auto simp: live_on_def h'_def)
  have raw': "raw_on h' (data a + (nUsed a + 1)) (data a + nAllocated a)"
    using raw by (auto simp: raw_on_def h'_def)
  have ok': "array_ok cfg h' (a\<lparr>nUsed := nUsed a + 1\<rparr>)"
    using ok room u live' raw' by (simp add: array_ok_def h'_def)
  have n: "nat (nUsed a + 1) = Suc (nat (nUsed a))" using u by simp
  have "elems h' (a\<lparr>nUsed := nUsed a + 1\<rparr>) = elems h a @ [Some v]"
    using u by (auto simp: elems_def n deref_def h'_def)
  moreover have "brk h' = brk h" "\<forall>q. q \<noteq> data a + nUsed a \<longrightarrow> cells h' q = cells h q"
    by (simp_all add: h'_def)
  ultimately show ?thesis using c ok' by blast
qed

text \<open>
  What a run of the container leaves alone: the memory below the former \<open>brk\<close> that is not
  in the container's own block.
\<close>

lemma push_back_spec:
  assumes cfg: "cfg_ok cfg" and ok: "array_ok cfg h a"
    and lim: "nAllocated a \<le> max_size cfg" and room: "nUsed a < max_size cfg"
    and bf: "bytes_fit cfg (min (max_size cfg) (max 4 (2 * (nUsed a + 1))))"
  shows "\<exists>h' a'. push_back cfg h a v = Ok (h', a') (data a' + nUsed a) \<and> array_ok cfg h' a' \<and>
           nUsed a' = nUsed a + 1 \<and> nAllocated a' \<le> max_size cfg \<and>
           nAllocated a \<le> nAllocated a' \<and> elems h' a' = elems h a @ [Some v] \<and>
           brk h \<le> brk h' \<and>
           (data a' = data a \<and> nAllocated a' = nAllocated a \<or> brk h \<le> data a') \<and>
           (\<forall>q. q < brk h \<and> \<not> (data a \<le> q \<and> q < data a + nAllocated a) \<longrightarrow>
                cells h' q = cells h q)"
proof -
  from ok have u0: "0 \<le> nUsed a" "nUsed a \<le> nAllocated a" by (simp_all add: array_ok_def)
  from ok have inb: "nAllocated a \<noteq> 0 \<Longrightarrow> data a + nAllocated a \<le> brk h" and bp: "0 < brk h"
    and nul: "nAllocated a = 0 \<Longrightarrow> data a = 0"
    by (simp_all add: array_ok_def split: if_splits)
  have "\<exists>h1 a1. (if nAllocated a = nUsed a then growAtEnd cfg h a 1 else Ok (h, a) ()) = Ok (h1, a1) () \<and>
          array_ok cfg h1 a1 \<and> nUsed a1 = nUsed a \<and> elems h1 a1 = elems h a \<and>
          nUsed a1 < nAllocated a1 \<and> nAllocated a1 \<le> max_size cfg \<and> nAllocated a \<le> nAllocated a1 \<and>
          brk h \<le> brk h1 \<and>
          (h1 = h \<and> a1 = a \<or> data a1 = brk h) \<and>
          (\<forall>q. q < brk h \<and> \<not> (data a \<le> q \<and> q < data a + nAllocated a) \<longrightarrow>
                cells h1 q = cells h q)"
  proof (cases "nAllocated a = nUsed a")
    case True
    then have le: "nAllocated a + 1 \<le> max_size cfg" using room by simp
    have "max (max (nAllocated a + 1) (min (2 * nAllocated a) (max_size cfg))) (min 4 (max_size cfg))
            \<le> min (max_size cfg) (max 4 (2 * (nUsed a + 1)))"
      using True le u0 by auto
    from bytes_fit_mono [OF bf this] have "bytes_fit cfg
        (max (max (nAllocated a + 1) (min (2 * nAllocated a) (max_size cfg))) (min 4 (max_size cfg)))" .
    from growAtEnd_spec [OF cfg ok _ le this] True show ?thesis by fastforce
  next
    case False
    then show ?thesis using ok lim by (auto simp: array_ok_def)
  qed
  then obtain h1 a1 where g:
    "(if nAllocated a = nUsed a then growAtEnd cfg h a 1 else Ok (h, a) ()) = Ok (h1, a1) ()"
    "array_ok cfg h1 a1" "nUsed a1 = nUsed a" "elems h1 a1 = elems h a"
    "nUsed a1 < nAllocated a1" "nAllocated a1 \<le> max_size cfg" "nAllocated a \<le> nAllocated a1"
    "brk h \<le> brk h1" "h1 = h \<and> a1 = a \<or> data a1 = brk h"
    "\<forall>q. q < brk h \<and> \<not> (data a \<le> q \<and> q < data a + nAllocated a) \<longrightarrow> cells h1 q = cells h q"
    by blast
  from construct_at_end [OF cfg g(2) g(5), of v]
  obtain h2 where h2: "construct h1 (data a1 + nUsed a1) v = Some h2"
    "array_ok cfg h2 (a1\<lparr>nUsed := nUsed a1 + 1\<rparr>)"
    "elems h2 (a1\<lparr>nUsed := nUsed a1 + 1\<rparr>) = elems h1 a1 @ [Some v]"
    "brk h2 = brk h1" "\<forall>q. q \<noteq> data a1 + nUsed a1 \<longrightarrow> cells h2 q = cells h1 q"
    by blast
  from g(2) have "0 \<le> nUsed a1" "nAllocated a1 \<le> size_max cfg" by (simp_all add: array_ok_def)
  then have st: "size_type cfg (nUsed a1 + 1) = nUsed a1 + 1"
    using g(5) by (intro size_type_id [OF cfg] representable_nonneg) auto
  have run: "push_back cfg h a v = Ok (h2, a1\<lparr>nUsed := nUsed a1 + 1\<rparr>) (data a1 + nUsed a)"
    using g(1,3) h2(1) st by (simp add: push_back_def and_then_def of_option_def Let_def)
  have place: "data a1 = data a \<and> nAllocated a1 = nAllocated a \<or> brk h \<le> data a1"
    using g(9) by auto
  have frame: "cells h2 q = cells h q"
    if q: "q < brk h" "\<not> (data a \<le> q \<and> q < data a + nAllocated a)" for q
  proof -
    have "q \<noteq> data a1 + nUsed a1"
    proof
      assume e: "q = data a1 + nUsed a1"
      from g(9) show False
      proof
        assume "h1 = h \<and> a1 = a"
        with e q g(5) u0 show False by auto
      next
        assume "data a1 = brk h"
        with e q g(3) u0 show False by auto
      qed
    qed
    then have "cells h2 q = cells h1 q" using h2(5) by simp
    with g(10) q show ?thesis by simp
  qed
  show ?thesis
    using run h2(2,3,4) g(3,4,6,7,8) place frame
    by (intro exI [of _ h2] exI [of _ "a1\<lparr>nUsed := nUsed a1 + 1\<rparr>"]) simp
qed

lemma push_back_all_spec:
  assumes cfg: "cfg_ok cfg"
  shows "array_ok cfg h a \<Longrightarrow> nAllocated a \<le> max_size cfg \<Longrightarrow>
         nUsed a + int (length vs) \<le> max_size cfg \<Longrightarrow>
         bytes_fit cfg (min (max_size cfg) (max 4 (2 * (nUsed a + int (length vs))))) \<Longrightarrow>
         \<exists>h' a'. push_back_all cfg h a vs = Ok (h', a') () \<and> array_ok cfg h' a' \<and>
           nUsed a' = nUsed a + int (length vs) \<and> nAllocated a' \<le> max_size cfg \<and>
           elems h' a' = elems h a @ map Some vs \<and>
           brk h \<le> brk h' \<and>
           (data a' = data a \<and> nAllocated a' = nAllocated a \<or> brk h \<le> data a') \<and>
           (\<forall>q. q < brk h \<and> \<not> (data a \<le> q \<and> q < data a + nAllocated a) \<longrightarrow>
                cells h' q = cells h q)"
proof (induction vs arbitrary: h a)
  case Nil
  then show ?case by simp
next
  case (Cons v vs)
  from Cons.prems have room: "nUsed a < max_size cfg" by simp
  have "min (max_size cfg) (max 4 (2 * (nUsed a + 1)))
          \<le> min (max_size cfg) (max 4 (2 * (nUsed a + int (length (v # vs)))))"
    by auto
  from bytes_fit_mono [OF Cons.prems(4) this]
  have bf1: "bytes_fit cfg (min (max_size cfg) (max 4 (2 * (nUsed a + 1))))" .
  from push_back_spec [OF cfg Cons.prems(1,2) room bf1, of v]
  obtain h1 a1 where p: "push_back cfg h a v = Ok (h1, a1) (data a1 + nUsed a)"
    "array_ok cfg h1 a1" "nUsed a1 = nUsed a + 1" "nAllocated a1 \<le> max_size cfg"
    "elems h1 a1 = elems h a @ [Some v]" "brk h \<le> brk h1"
    "data a1 = data a \<and> nAllocated a1 = nAllocated a \<or> brk h \<le> data a1"
    "\<forall>q. q < brk h \<and> \<not> (data a \<le> q \<and> q < data a + nAllocated a) \<longrightarrow> cells h1 q = cells h q"
    by blast
  have le: "nUsed a1 + int (length vs) \<le> max_size cfg" using Cons.prems(3) p(3) by simp
  have bf2: "bytes_fit cfg (min (max_size cfg) (max 4 (2 * (nUsed a1 + int (length vs)))))"
    using Cons.prems(4) p(3) by (simp add: algebra_simps)
  from Cons.IH [OF p(2) p(4) le bf2]
  obtain h' a' where r: "push_back_all cfg h1 a1 vs = Ok (h', a') ()" "array_ok cfg h' a'"
    "nUsed a' = nUsed a1 + int (length vs)" "nAllocated a' \<le> max_size cfg"
    "elems h' a' = elems h1 a1 @ map Some vs" "brk h1 \<le> brk h'"
    "data a' = data a1 \<and> nAllocated a' = nAllocated a1 \<or> brk h1 \<le> data a'"
    "\<forall>q. q < brk h1 \<and> \<not> (data a1 \<le> q \<and> q < data a1 + nAllocated a1) \<longrightarrow> cells h' q = cells h1 q"
    by blast
  have run: "push_back_all cfg h a (v # vs) = Ok (h', a') ()"
    using p(1) r(1) by (simp add: and_then_def)
  have place: "data a' = data a \<and> nAllocated a' = nAllocated a \<or> brk h \<le> data a'"
    using p(6,7) r(7) by auto
  have frame: "cells h' q = cells h q"
    if q: "q < brk h" "\<not> (data a \<le> q \<and> q < data a + nAllocated a)" for q
  proof -
    have "\<not> (data a1 \<le> q \<and> q < data a1 + nAllocated a1)" using p(7) q by auto
    moreover have "q < brk h1" using q(1) p(6) by simp
    ultimately have "cells h' q = cells h1 q" using r(8) by simp
    with p(8) q show ?thesis by simp
  qed
  show ?case
    using run r(2,3,4,5,6) p(3,5,6) place frame
    by (intro exI [of _ h'] exI [of _ a']) simp
qed

lemma array_ok_default: "0 < brk h \<Longrightarrow> array_ok cfg h Array_default"
  using size_max_nonneg [of cfg]
  by (auto simp: array_ok_def Array_default_def live_on_def raw_on_def)

lemma elems_default: "elems h Array_default = []"
  by (simp add: elems_def Array_default_def)

lemma push_back_all_append:
  "push_back_all cfg h a (vs @ [v]) =
     and_then (push_back_all cfg h a vs)
       (\<lambda>(h1, a1) u. and_then (push_back cfg h1 a1 v) (\<lambda>(h2, a2) p. Ok (h2, a2) ()))"
proof (induction vs arbitrary: h a)
  case Nil
  show ?case by (auto simp: and_then_def split: result.splits prod.splits)
next
  case (Cons w vs)
  show ?case
    by (cases "push_back cfg h a w") (auto simp: and_then_def Cons.IH)
qed

lemma push_back_full:
  assumes cfg: "cfg_ok cfg" and ok: "array_ok cfg h a"
    and full: "nUsed a = max_size cfg" "nAllocated a = max_size cfg"
  shows "push_back cfg h a v = Raise SizeLimitExceeded (h, a)"
proof -
  from cfg have m: "0 \<le> max_size cfg" "max_size cfg < 2 ^ 63" by (simp_all add: cfg_ok_def)
  have "calcNewCapacityForGrowthBy cfg a 1 = Inl SizeLimitExceeded"
    using calcNewCapacityForGrowthBy_eq [OF cfg, of a 1] full m by (simp add: capacity_def)
  then show ?thesis using full by (simp add: push_back_def growAtEnd_def and_then_def)
qed

lemma cfg_ok_int: "cfg_ok (IndexTraits_int k s)"
  by (simp add: cfg_ok_def IndexTraits_int_def size_max_def)

lemma cfg_ok_signed_char: "cfg_ok (IndexTraits_signed_char k s)"
  by (simp add: cfg_ok_def IndexTraits_signed_char_def size_max_def)

lemma bytes_fit_int: "n \<le> 2147483647 \<Longrightarrow> bytes_fit (IndexTraits_int k 4) n"
  by (simp add: bytes_fit_def IndexTraits_int_def)

lemma pushed_int:
  assumes "int (length vs) \<le> 2147483647"
  shows "\<exists>h a. push_back_all (IndexTraits_int k 4) empty_heap Array_default vs = Ok (h, a) () \<and>
           array_ok (IndexTraits_int k 4) h a \<and> nUsed a = int (length vs) \<and>
           elems h a = map Some vs"
proof -
  let ?cfg = "IndexTraits_int k 4"
  have ok0: "array_ok ?cfg (empty_heap :: 'a heap) Array_default"
    by (rule array_ok_default) (simp add: empty_heap_def)
  have "min (max_size ?cfg) (max 4 (2 * (nUsed Array_default + int (length vs)))) \<le> 2147483647"
    by (simp add: IndexTraits_int_def)
  then have "bytes_fit ?cfg (min (max_size ?cfg) (max 4 (2 * (nUsed Array_default + int (length vs)))))"
    by (rule bytes_fit_int)
  moreover have "nAllocated Array_default \<le> max_size ?cfg"
    "nUsed Array_default + int (length vs) \<le> max_size ?cfg"
    using assms by (simp_all add: Array_default_def IndexTraits_int_def)
  ultimately obtain h a where
    "push_back_all ?cfg empty_heap Array_default vs = Ok (h, a) ()" "array_ok ?cfg h a"
    "nUsed a = nUsed Array_default + int (length vs)"
    "elems h a = elems (empty_heap :: 'a heap) Array_default @ map Some vs"
    using push_back_all_spec [OF cfg_ok_int ok0, of vs] by blast
  then show ?thesis by (auto simp: Array_default_def elems_def)
qed

subsection \<open>Appending\<close>

text \<open>
  Claim C1, as the code has it. Appending the values \<open>vs\<close> one after the other to a
  default-constructed container succeeds as long as their number does not exceed
  \<open>max_size\<close> of the index type; afterwards the length is the number of values appended,
  the capacity is at least the length, and reading the elements by index gives the values
  in the order in which they were appended. The buffers asked for on the way hold at most
  \<open>max_size\<close> and at most \<open>max 4 (2 * length vs)\<close> elements; the number of bytes of such a
  buffer is taken to fit \<^verbatim>\<open>size_t\<close>, as it does whenever that much memory exists.
\<close>

theorem push_back_sequence:
  assumes "cfg_ok cfg" and "0 < brk h" and "int (length vs) \<le> max_size cfg"
    and "bytes_fit cfg (min (max_size cfg) (max 4 (2 * int (length vs))))"
  shows "\<exists>h' a'. push_back_all cfg h Array_default vs = Ok (h', a') () \<and>
           size_a a' = int (length vs) \<and> size_a a' \<le> capacity a' \<and>
           elems h' a' = map Some vs"
proof -
  have ok: "array_ok cfg h Array_default" using assms(2) by (rule array_ok_default)
  have "nAllocated Array_default \<le> max_size cfg" "nUsed Array_default + int (length vs) \<le> max_size cfg"
    "bytes_fit cfg (min (max_size cfg) (max 4 (2 * (nUsed Array_default + int (length vs)))))"
    using assms by (simp_all add: Array_default_def cfg_ok_def)
  from push_back_all_spec [OF assms(1) ok this]
  obtain h' a' where r: "push_back_all cfg h Array_default vs = Ok (h', a') ()"
    "array_ok cfg h' a'" "nUsed a' = nUsed Array_default + int (length vs)"
    "elems h' a' = elems h Array_default @ map Some vs"
    by blast
  from r(2) have "nUsed a' \<le> nAllocated a'" by (simp add: array_ok_def)
  moreover have "nUsed Array_default = 0" by (simp add: Array_default_def)
  ultimately show ?thesis using r
    by (simp add: elems_default size_a_def capacity_def)
qed

text \<open>
  The scenario of the specification: 10, 20, 30, 40, 50 appended to a default-constructed
  container with the default index type \<^verbatim>\<open>int\<close>.
\<close>

theorem push_back_sequence_witness:
  "\<exists>h' a'. push_back_all (IndexTraits_int False 4) empty_heap Array_default [10, 20, 30, 40, 50 :: int]
             = Ok (h', a') () \<and>
           size_a a' = 5 \<and> 5 \<le> capacity a' \<and>
           elems h' a' = [Some 10, Some 20, Some 30, Some 40, Some 50]"
proof -
  have "cfg_ok (IndexTraits_int False 4)" by (rule cfg_ok_int)
  moreover have "0 < brk (empty_heap :: int heap)" by (simp add: empty_heap_def)
  moreover have "int (length [10, 20, 30, 40, 50 :: int]) \<le> max_size (IndexTraits_int False 4)"
    by (simp add: IndexTraits_int_def)
  moreover have "bytes_fit (IndexTraits_int False 4)
      (min (max_size (IndexTraits_int False 4)) (max 4 (2 * int (length [10, 20, 30, 40, 50 :: int]))))"
    by (simp add: bytes_fit_def IndexTraits_int_def)
  ultimately show ?thesis
    using push_back_sequence [of "IndexTraits_int False 4" empty_heap "[10, 20, 30, 40, 50 :: int]"]
    by (fastforce simp del: push_back_all.simps)
qed

text \<open>
  Without the bound on the number of values the statement of C1 fails: with the index type
  \<^verbatim>\<open>signed char\<close> (\<open>max_size = 127\<close>) the 128th append raises SizeLimitExceeded, by the
  check in \<^verbatim>\<open>calcNewCapacityForGrowthBy\<close>.
\<close>

theorem push_back_beyond_max_size:
  "raised (push_back_all (IndexTraits_signed_char False 4) empty_heap Array_default
             (replicate 128 (0 :: int))) = Some SizeLimitExceeded"
proof -
  let ?cfg = "IndexTraits_signed_char False 4"
  have cfg: "cfg_ok ?cfg" by (rule cfg_ok_signed_char)
  have m: "max_size ?cfg = 127" by (simp add: IndexTraits_signed_char_def)
  have ok: "array_ok ?cfg (empty_heap :: int heap) Array_default"
    by (rule array_ok_default) (simp add: empty_heap_def)
  have "nAllocated Array_default \<le> max_size ?cfg"
    "nUsed Array_default + int (length (replicate 127 (0::int))) \<le> max_size ?cfg"
    "bytes_fit ?cfg (min (max_size ?cfg)
       (max 4 (2 * (nUsed Array_default + int (length (replicate 127 (0::int)))))))"
    by (simp_all add: Array_default_def m bytes_fit_def IndexTraits_signed_char_def)
  from push_back_all_spec [OF cfg ok this]
  obtain h' a' where r: "push_back_all ?cfg empty_heap Array_default (replicate 127 (0::int)) = Ok (h', a') ()"
    "array_ok ?cfg h' a'" "nUsed a' = 127" "nAllocated a' \<le> 127"
    by (auto simp: Array_default_def m)
  then have full: "nUsed a' = max_size ?cfg" "nAllocated a' = max_size ?cfg"
    by (auto simp: array_ok_def m)
  have "replicate 128 (0::int) = replicate 127 0 @ [0]"
    using replicate_add [of 127 1 "0::int"] by simp
  then show ?thesis
    using r(1) push_back_full [OF cfg r(2) full, of 0]
    by (simp add: push_back_all_append and_then_def raised_def)
qed

lemma copyConstructThenDestructSource_empty [simp]:
  "copyConstructThenDestructSource h b b src = Some h"
  by (subst copyConstructThenDestructSource.simps) simp

subsection \<open>The growth policy\<close>

text \<open>
  Claim C3 at the index type \<^verbatim>\<open>unsigned long long\<close>. The check adds capacity and \<open>n\<close> as
  \<^verbatim>\<open>unsigned long long\<close> values, which is no wider than the size type here: for a container
  of capacity 4 and \<open>n = 2^64 - 2\<close> the sum wraps around to 2, the check passes although
  capacity plus \<open>n\<close> exceeds \<open>max_size\<close>, and the capacity chosen is 8. The same happens
  through the public \<^verbatim>\<open>insert(p, n, value)\<close>, whose gap is opened by \<^verbatim>\<open>insertGapAt\<close>.
  (For sums below \<open>2^64\<close>, so for every narrower index type, the function is as C3 says:
  lemma \<open>calcNewCapacityForGrowthBy_eq\<close>.)
\<close>

theorem growth_check_wraps_at_64_bits:
  "max_size (IndexTraits_unsigned_long_long True 4) < 4 + 18446744073709551614 \<and>
   representable (IndexTraits_unsigned_long_long True 4) 18446744073709551614 \<and>
   calcNewCapacityForGrowthBy (IndexTraits_unsigned_long_long True 4)
     \<lparr>data = 1, nUsed = 0, nAllocated = 4\<rparr> 18446744073709551614 = Inr 8 \<and>
   map_option capacity
     (array_of (and_then (reserve (IndexTraits_unsigned_long_long True 4)
                            (empty_heap :: int heap) Array_default 4)
        (\<lambda>(h, a) u. insertGapAt (IndexTraits_unsigned_long_long True 4) h a (begin_a a)
                        18446744073709551614))) = Some 8"
  by (simp add: IndexTraits_unsigned_long_long_def representable_def size_min_def size_max_def
      calcNewCapacityForGrowthBy_def isGrowthOK_def isSizeOK_def ullCapacity_def ullMaxSize_def
      ull_def capacity_def size_type_def tdiv_def minAlloc_def
      reserve_def Array_default_def empty_heap_def allocN_def Let_def ull_def freeN_def of_option_def
      and_then_def insertGapAt_def errchk_fails_def begin_a_def end_a_def promoted_def size_a_def
      array_of_def)

lemma cfg_ok_builtin:
  "cfg_ok (IndexTraits_unsigned k s)" "cfg_ok (IndexTraits_unsigned_short k s)"
  "cfg_ok (IndexTraits_short k s)" "cfg_ok (IndexTraits_unsigned_long_long k s)"
  "cfg_ok (IndexTraits_long_long k s)" "cfg_ok (IndexTraits_unsigned_char k s)"
  by (simp_all add: cfg_ok_def size_max_def IndexTraits_unsigned_def
      IndexTraits_unsigned_short_def IndexTraits_short_def IndexTraits_unsigned_long_long_def
      IndexTraits_long_long_def IndexTraits_unsigned_char_def)

lemma size_max_narrow:
  assumes "cfg_ok cfg" and "size_bits cfg < 64 \<or> size_signed cfg"
  shows "size_max cfg < 2 ^ 63"
proof (cases "size_signed cfg")
  case True
  from assms(1) have "size_bits cfg \<le> 64" by (simp add: cfg_ok_def)
  then have "size_bits cfg - 1 \<le> 63" by arith
  then have "(2::int) ^ (size_bits cfg - 1) \<le> 2 ^ 63" by (intro power_increasing) auto
  then show ?thesis using True by (simp add: size_max_def)
next
  case False
  with assms(2) have "size_bits cfg \<le> 63" by simp
  then have "(2::int) ^ size_bits cfg \<le> 2 ^ 63" by (intro power_increasing) auto
  then show ?thesis using False by (simp add: size_max_def)
qed

text \<open>
  The growth policy for every index type that is signed or narrower than 64 bits, where the
  sum of two values of the size type cannot wrap at 64 bits: growing a capacity by \<open>n\<close>
  raises SizeLimitExceeded exactly when capacity plus \<open>n\<close> exceeds \<open>max_size\<close>, and otherwise
  chooses the largest of capacity plus \<open>n\<close>, twice the capacity capped at \<open>max_size\<close>, and
  the minimum allocation \<open>min 4 max_size\<close>; the capacity chosen never exceeds \<open>max_size\<close>.
\<close>

theorem growth_policy:
  assumes "cfg_ok cfg" and "size_bits cfg < 64 \<or> size_signed cfg"
    and "0 \<le> capacity a" and "capacity a \<le> size_max cfg"
    and "0 \<le> n" and "n \<le> size_max cfg"
  shows "calcNewCapacityForGrowthBy cfg a n =
           (if capacity a + n \<le> max_size cfg
            then Inr (max (max (capacity a + n) (min (2 * capacity a) (max_size cfg)))
                          (min 4 (max_size cfg)))
            else Inl SizeLimitExceeded) \<and>
         (case calcNewCapacityForGrowthBy cfg a n of
            Inr c \<Rightarrow> capacity a + n \<le> c \<and> c \<le> max_size cfg
          | Inl e \<Rightarrow> e = SizeLimitExceeded \<and> max_size cfg < capacity a + n)"
proof -
  from size_max_narrow [OF assms(1,2)] assms(4,6) have "capacity a + n < 2 ^ 64" by simp
  from calcNewCapacityForGrowthBy_eq [OF assms(1,3,5) this]
  show ?thesis by auto
qed

text \<open>With the index type \<^verbatim>\<open>unsigned char\<close> (\<open>max_size = 255\<close>), growing by one.\<close>

theorem growth_policy_witness:
  "calcNewCapacityForGrowthBy (IndexTraits_unsigned_char False 4)
     \<lparr>data = 1, nUsed = 100, nAllocated = 100\<rparr> 1 = Inr 200 \<and>
   calcNewCapacityForGrowthBy (IndexTraits_unsigned_char False 4)
     \<lparr>data = 1, nUsed = 200, nAllocated = 200\<rparr> 1 = Inr 255 \<and>
   calcNewCapacityForGrowthBy (IndexTraits_unsigned_char False 4)
     \<lparr>data = 1, nUsed = 255, nAllocated = 255\<rparr> 1 = Inl SizeLimitExceeded \<and>
   calcNewCapacityForGrowthBy (IndexTraits_unsigned_char False 4)
     \<lparr>data = 0, nUsed = 0, nAllocated = 0\<rparr> 1 = Inr 4"
proof -
  let ?cfg = "IndexTraits_unsigned_char False 4"
  have cfg: "cfg_ok ?cfg" by (rule cfg_ok_builtin)
  have b: "size_bits ?cfg < 64 \<or> size_signed ?cfg" by (simp add: IndexTraits_unsigned_char_def)
  have s: "size_max ?cfg = 255" "max_size ?cfg = 255"
    by (simp_all add: IndexTraits_unsigned_char_def size_max_def)
  show ?thesis
    using growth_policy [OF cfg b, of "\<lparr>data = 1, nUsed = 100, nAllocated = 100\<rparr>" 1]
      growth_policy [OF cfg b, of "\<lparr>data = 1, nUsed = 200, nAllocated = 200\<rparr>" 1]
      growth_policy [OF cfg b, of "\<lparr>data = 1, nUsed = 255, nAllocated = 255\<rparr>" 1]
      growth_policy [OF cfg b, of "\<lparr>data = 0, nUsed = 0, nAllocated = 0\<rparr>" 1]
    by (simp add: s capacity_def)
qed

subsection \<open>Reserving\<close>

text \<open>
  Claim C8 at the index type \<^verbatim>\<open>unsigned short\<close> (\<open>max_size = 0x7fff\<close>, while the size type
  holds values up to \<open>0xffff\<close>): \<^verbatim>\<open>reserve(0x8000)\<close> on a default-constructed container raises
  nothing and adopts the capacity \<open>0x8000\<close>.
\<close>

theorem reserve_beyond_max_size:
  "max_size (IndexTraits_unsigned_short True 4) < 32768 \<and>
   representable (IndexTraits_unsigned_short True 4) 32768 \<and>
   raised (reserve (IndexTraits_unsigned_short True 4) (empty_heap :: int heap) Array_default
             32768) = None \<and>
   map_option capacity
     (array_of (reserve (IndexTraits_unsigned_short True 4) (empty_heap :: int heap) Array_default
                  32768)) = Some 32768"
  by (simp add: IndexTraits_unsigned_short_def representable_def size_min_def size_max_def
      reserve_def Array_default_def empty_heap_def allocN_def Let_def ull_def freeN_def of_option_def
      raised_def array_of_def capacity_def)

text \<open>
  Claim C2. Invariant (d): a default-constructed container with index type \<^verbatim>\<open>unsigned\<close>
  satisfies the invariants, and the public \<^verbatim>\<open>reserve\<close> leads it to a state that does not.
  Invariant (c), which the heap of slots makes statable: \<^verbatim>\<open>insert(p, first, last1)\<close> of the
  range 100, 200, 300 at position 1 of a container holding 1, 2, 3 opens the gap and
  constructs the three elements, but \<^verbatim>\<open>insertImpl\<close> for random access iterators never
  adds to \<open>nUsed\<close>: the length is still 3, the container reads 1, 100, 200, and the slot at
  index 3, outside the length, holds the live element 300.
\<close>

theorem invariant_broken_by_reserve:
  "invariants (IndexTraits_unsigned True 4) Array_default \<and>
   representable (IndexTraits_unsigned True 4) 3000000000 \<and>
   map_option (invariants (IndexTraits_unsigned True 4))
     (array_of (reserve (IndexTraits_unsigned True 4) (empty_heap :: int heap) Array_default
                  3000000000)) = Some False \<and>
   (case and_then (push_back_all (IndexTraits_int True 4) empty_heap Array_default [100, 200, 300 :: int])
           (\<lambda>(h1, b) u.
              and_then (push_back_all (IndexTraits_int True 4) h1 Array_default [1, 2, 3])
                (\<lambda>(h2, a) u. insert_range (IndexTraits_int True 4) h2 a (begin_a a + 1)
                                 (begin_a b) (end_a b))) of
      Ok (h, a) p \<Rightarrow> (size_a a, capacity a, elems h a, cells h (end_a a))
    | _ \<Rightarrow> (0, 0, [], None))
     = (3, 8, [Some 1, Some 100, Some 200], Some (Live 300))"
proof -
  have 1: "invariants (IndexTraits_unsigned True 4) Array_default \<and>
   representable (IndexTraits_unsigned True 4) 3000000000 \<and>
   map_option (invariants (IndexTraits_unsigned True 4))
     (array_of (reserve (IndexTraits_unsigned True 4) (empty_heap :: int heap) Array_default
                  3000000000)) = Some False"
    by (simp add: IndexTraits_unsigned_def representable_def size_min_def size_max_def
      reserve_def Array_default_def empty_heap_def allocN_def Let_def ull_def freeN_def of_option_def
      invariants_def array_of_def)
  have 2: "(case and_then (push_back_all (IndexTraits_int True 4) empty_heap Array_default [100, 200, 300 :: int])
           (\<lambda>(h1, b) u.
              and_then (push_back_all (IndexTraits_int True 4) h1 Array_default [1, 2, 3])
                (\<lambda>(h2, a) u. insert_range (IndexTraits_int True 4) h2 a (begin_a a + 1)
                                 (begin_a b) (end_a b))) of
      Ok (h, a) p \<Rightarrow> (size_a a, capacity a, elems h a, cells h (end_a a))
    | _ \<Rightarrow> (0, 0, [], None))
     = (3, 8, [Some 1, Some 100, Some 200], Some (Live 300))"
    by code_simp
  from 1 2 show ?thesis by blast
qed

subsection \<open>Removing the last element\<close>

lemma destruct_range_spec:
  "b \<le> e \<Longrightarrow> live_on h b e \<Longrightarrow>
   \<exists>h'. destruct_range h b e = Some h' \<and> blocks h' = blocks h \<and> brk h' = brk h \<and>
        (\<forall>q. cells h' q = (if b \<le> q \<and> q < e then Some Raw else cells h q))"
proof (induction h b e rule: destruct_range.induct)
  case (1 h b e)
  show ?case
  proof (cases "b = e")
    case True
    then show ?thesis by (subst destruct_range.simps) auto
  next
    case False
    with "1.prems" have lt: "b < e" by simp
    from live_onD [OF "1.prems"(2), of b] lt obtain v where v: "cells h b = Some (Live v)"
      by auto
    define h1 where "h1 = h\<lparr>cells := (cells h)(b := Some Raw), events := events h @ [Destructed (b)]\<rparr>"
    have d1: "destruct h b = Some h1" using v by (simp add: destruct_Live h1_def)
    have live1: "live_on h1 (b + 1) e"
      using "1.prems"(2) by (auto simp: live_on_def h1_def)
    from "1.IH" [OF False _ d1 _ live1] lt
    obtain h' where h': "destruct_range h1 (b + 1) e = Some h'"
      "blocks h' = blocks h1" "brk h' = brk h1"
      "\<And>q. cells h' q = (if b + 1 \<le> q \<and> q < e then Some Raw else cells h1 q)"
      by auto
    have run: "destruct_range h b e = Some h'"
      using lt False h'(1) d1 by (subst destruct_range.simps) simp
    have "cells h' q = (if b \<le> q \<and> q < e then Some Raw else cells h q)" for q
      using lt by (auto simp: h'(4) h1_def)
    then show ?thesis using run h'(2,3) by (simp add: h1_def)
  qed
qed

lemma pop_back_nonempty:
  assumes cfg: "cfg_ok cfg" and ok: "array_ok cfg h a" and ne: "0 < nUsed a"
  shows "\<exists>h'. pop_back cfg h a = Ok (h', a\<lparr>nUsed := nUsed a - 1\<rparr>) () \<and>
           array_ok cfg h' (a\<lparr>nUsed := nUsed a - 1\<rparr>) \<and>
           elems h' (a\<lparr>nUsed := nUsed a - 1\<rparr>) = butlast (elems h a)"
proof -
  from ok have u: "nUsed a \<le> nAllocated a" "nAllocated a \<le> size_max cfg"
    and live: "live_on h (data a) (data a + nUsed a)"
    and raw: "raw_on h (data a + nUsed a) (data a + nAllocated a)"
    by (simp_all add: array_ok_def)
  have st: "size_type cfg (nUsed a - 1) = nUsed a - 1"
    using u ne by (intro size_type_id [OF cfg] representable_nonneg) auto
  from live_onD [OF live, of "data a + (nUsed a - 1)"] ne
  obtain v where v: "cells h (data a + (nUsed a - 1)) = Some (Live v)" by auto
  define h' where "h' = h\<lparr>cells := (cells h)(data a + (nUsed a - 1) := Some Raw), events := events h @ [Destructed (data a + (nUsed a - 1))]\<rparr>"
  have d: "destruct h (data a + (nUsed a - 1)) = Some h'"
    using v by (simp add: destruct_Live h'_def)
  have live': "live_on h' (data a) (data a + (nUsed a - 1))"
    using live by (auto simp: live_on_def h'_def)
  have raw': "raw_on h' (data a + (nUsed a - 1)) (data a + nAllocated a)"
    using raw by (auto simp: raw_on_def h'_def)
  have ok': "array_ok cfg h' (a\<lparr>nUsed := nUsed a - 1\<rparr>)"
    using ok ne live' raw' by (simp add: array_ok_def h'_def)
  have n: "nat (nUsed a) = Suc (nat (nUsed a - 1))" using ne by simp
  have "elems h a = map (\<lambda>i. deref h (data a + int i)) [0 ..< nat (nUsed a - 1)]
                    @ [deref h (data a + int (nat (nUsed a - 1)))]"
    by (simp add: elems_def n)
  then have "butlast (elems h a) = map (\<lambda>i. deref h (data a + int i)) [0 ..< nat (nUsed a - 1)]"
    by simp
  also have "\<dots> = map (\<lambda>i. deref h' (data a + int i)) [0 ..< nat (nUsed a - 1)]"
    by (rule map_cong) (auto simp: deref_def h'_def)
  finally have el: "elems h' (a\<lparr>nUsed := nUsed a - 1\<rparr>) = butlast (elems h a)"
    by (simp add: elems_def)
  have "\<not> errchk_fails cfg (\<not> empty_a a)" using ne by (simp add: errchk_fails_def empty_a_def)
  then show ?thesis using st d ok' el by (simp add: pop_back_def of_option_def Let_def)
qed

text \<open>
  Claim C9, as the code has it. The check for an empty container is written with
  \<^verbatim>\<open>SimTK_ERRCHK\<close>: in a build that keeps these checks, \<^verbatim>\<open>pop_back\<close> on a container with no
  elements raises EmptyContainerAccess and changes nothing. On a container with elements
  (in every build) it destructs the last element and takes one off the length; the other
  elements, the capacity and the buffer stay as they are.
\<close>

theorem pop_back_spec:
  assumes "cfg_ok cfg" and "array_ok cfg h a"
  shows "(keep_errchk cfg \<and> size_a a = 0 \<longrightarrow>
            pop_back cfg h a = Raise EmptyContainerAccess (h, a)) \<and>
         (0 < size_a a \<longrightarrow>
            (\<exists>h' a'. pop_back cfg h a = Ok (h', a') () \<and>
               size_a a' = size_a a - 1 \<and> capacity a' = capacity a \<and> data a' = data a \<and>
               elems h' a' = butlast (elems h a) \<and> array_ok cfg h' a'))"
proof (intro conjI impI)
  assume "keep_errchk cfg \<and> size_a a = 0"
  then show "pop_back cfg h a = Raise EmptyContainerAccess (h, a)"
    by (simp add: pop_back_def errchk_fails_def empty_a_def size_a_def)
next
  assume "0 < size_a a"
  then have "0 < nUsed a" by (simp add: size_a_def)
  from pop_back_nonempty [OF assms this]
  show "\<exists>h' a'. pop_back cfg h a = Ok (h', a') () \<and>
               size_a a' = size_a a - 1 \<and> capacity a' = capacity a \<and> data a' = data a \<and>
               elems h' a' = butlast (elems h a) \<and> array_ok cfg h' a'"
    by (auto simp: size_a_def capacity_def)
qed

text \<open>Both parts at concrete containers: an empty one, and one holding 1, 2, 3.\<close>

theorem pop_back_spec_witness:
  "pop_back (IndexTraits_int True 4) (empty_heap :: int heap) Array_default
     = Raise EmptyContainerAccess (empty_heap, Array_default) \<and>
   contents (and_then (push_back_all (IndexTraits_int True 4) empty_heap Array_default [1, 2, 3 :: int])
               (\<lambda>(h, a) u. pop_back (IndexTraits_int True 4) h a)) = Some [Some 1, Some 2]"
proof -
  let ?cfg = "IndexTraits_int True 4"
  have cfg: "cfg_ok ?cfg" by (rule cfg_ok_int)
  have ok0: "array_ok ?cfg (empty_heap :: int heap) Array_default"
    by (rule array_ok_default) (simp add: empty_heap_def)
  have 1: "pop_back ?cfg (empty_heap :: int heap) Array_default
     = Raise EmptyContainerAccess (empty_heap, Array_default)"
    using pop_back_spec [OF cfg ok0]
    by (simp add: IndexTraits_int_def size_a_def Array_default_def)
  from pushed_int [of "[1, 2, 3 :: int]" True]
  obtain h a where r: "push_back_all ?cfg empty_heap Array_default [1, 2, 3 :: int] = Ok (h, a) ()"
    "array_ok ?cfg h a" "nUsed a = 3" "elems h a = [Some 1, Some 2, Some 3]"
    by (auto simp del: push_back_all.simps)
  from pop_back_spec [OF cfg r(2)] r(3,4)
  obtain h' a' where "pop_back ?cfg h a = Ok (h', a') ()" "elems h' a' = [Some 1, Some 2]"
    by (auto simp: size_a_def)
  with r(1) have 2: "contents (and_then (push_back_all ?cfg empty_heap Array_default [1, 2, 3 :: int])
               (\<lambda>(h, a) u. pop_back ?cfg h a)) = Some [Some 1, Some 2]"
    by (simp add: and_then_def contents_def del: push_back_all.simps)
  from 1 2 show ?thesis by simp
qed

text \<open>
  In a build without the \<^verbatim>\<open>SimTK_ERRCHK\<close> checks \<^verbatim>\<open>pop_back\<close> on an empty container raises
  nothing: there is no check left, the function goes on to decrement the length and to call
  the destructor.
\<close>

theorem pop_back_unchecked_empty:
  "raised (pop_back (IndexTraits_int False 4) (empty_heap :: int heap) Array_default) = None"
  by (simp add: pop_back_def errchk_fails_def IndexTraits_int_def Array_default_def
      size_type_def destruct_def empty_heap_def of_option_def raised_def)

subsection \<open>Reserving, continued\<close>

lemma copyConstructThenDestructSource_events:
  "copyConstructThenDestructSource h b e src = Some h' \<Longrightarrow>
   events h' = events h @
     concat (map (\<lambda>i. [Constructed (b + int i), Destructed (src + int i)]) [0 ..< nat (e - b)])"
proof (induction h b e src rule: copyConstructThenDestructSource.induct)
  case (1 h b e src)
  show ?case
  proof (cases "b = e")
    case True
    with "1.prems" show ?thesis by simp
  next
    case False
    from "1.prems" False have lt: "b < e"
      by (subst (asm) copyConstructThenDestructSource.simps) (simp split: if_splits)
    from "1.prems" False lt obtain v h1 h2 where st:
      "deref h src = Some v" "construct h b v = Some h1" "destruct h1 src = Some h2"
      "copyConstructThenDestructSource h2 (b + 1) e (src + 1) = Some h'"
      by (subst (asm) copyConstructThenDestructSource.simps) (auto split: bind_splits)
    have lt': "\<not> e < b" using lt by simp
    from "1.IH" [OF False lt' st(1,2,3,4)]
    have ih: "events h' = events h2 @
        concat (map (\<lambda>i. [Constructed (b + 1 + int i), Destructed (src + 1 + int i)])
                  [0 ..< nat (e - (b + 1))])" .
    have e2: "events h2 = events h @ [Constructed b, Destructed src]"
      using construct_events [OF st(2)] destruct_events [OF st(3)] by simp
    have n: "nat (e - b) = Suc (nat (e - (b + 1)))" using lt by simp
    have "concat (map (\<lambda>i. [Constructed (b + int i), Destructed (src + int i)]) [0 ..< nat (e - b)])
        = [Constructed b, Destructed src] @
          concat (map (\<lambda>i. [Constructed (b + 1 + int i), Destructed (src + 1 + int i)])
                    [0 ..< nat (e - (b + 1))])"
      unfolding n upt_conv_Cons [OF zero_less_Suc] map_Suc_upt [symmetric]
      by (simp add: o_def add.assoc)
    with ih e2 show ?thesis by simp
  qed
qed

lemma reserve_grows:
  assumes ok: "array_ok cfg h a" and t: "nAllocated a < target" "target \<le> size_max cfg"
    and bf: "bytes_fit cfg target"
  shows "\<exists>h'. reserve cfg h a target = Ok (h', a\<lparr>data := brk h, nAllocated := target\<rparr>) () \<and>
           array_ok cfg h' (a\<lparr>data := brk h, nAllocated := target\<rparr>) \<and>
           elems h' (a\<lparr>data := brk h, nAllocated := target\<rparr>) = elems h a \<and>
           events h' = events h @ [Allocated (brk h) target] @
             concat (map (\<lambda>i. [Constructed (brk h + int i), Destructed (data a + int i)])
                       [0 ..< nat (nUsed a)]) @
             (if data a = 0 then [] else [Released (data a)]) \<and>
           (data a \<noteq> 0 \<longrightarrow> blocks h' (data a) = None)"
proof -
  from move_to_new_block [OF ok t bf]
  obtain h1 h2 h3 where r:
    "allocN cfg h target = Some (h1, brk h)"
    "copyConstructThenDestructSource h1 (brk h) (brk h + nUsed a) (data a) = Some h2"
    "freeN h2 (data a) = Some h3"
    "array_ok cfg h3 (a\<lparr>data := brk h, nAllocated := target\<rparr>)"
    "elems h3 (a\<lparr>data := brk h, nAllocated := target\<rparr>) = elems h a"
    and gone: "data a \<noteq> 0 \<longrightarrow> blocks h3 (data a) = None"
    by blast
  from ok t have "0 < target" by (simp add: array_ok_def)
  from r(1) allocN_fits [OF this bf, of h]
  have e1: "events h1 = events h @ [Allocated (brk h) target]" by auto
  have e3: "events h3 = events h @ [Allocated (brk h) target] @
             concat (map (\<lambda>i. [Constructed (brk h + int i), Destructed (data a + int i)])
                       [0 ..< nat (nUsed a)]) @
             (if data a = 0 then [] else [Released (data a)])"
    using copyConstructThenDestructSource_events [OF r(2)] freeN_events [OF r(3)] e1 by simp
  have "reserve cfg h a target = Ok (h3, a\<lparr>data := brk h, nAllocated := target\<rparr>) ()"
    using r(1,2,3) t by (simp add: reserve_def of_option_def)
  with r(4,5) e3 gone show ?thesis by blast
qed


lemma capacity_of_three:
  "map_option (\<lambda>a. (data a, nAllocated a))
     (array_of (push_back_all (IndexTraits_int False 4) empty_heap Array_default [1, 2, 3 :: int]))
     = Some (1, 4)"
  "map_option (\<lambda>a. (data a, nAllocated a))
     (array_of (push_back_all (IndexTraits_int True 4) empty_heap Array_default [1, 2, 3 :: int]))
     = Some (1, 4)"
  by code_simp+

lemma three_pushed:
  "\<exists>h a. push_back_all (IndexTraits_int k 4) empty_heap Array_default [1, 2, 3 :: int] = Ok (h, a) () \<and>
           array_ok (IndexTraits_int k 4) h a \<and> nUsed a = 3 \<and> nAllocated a = 4 \<and>
           elems h a = [Some 1, Some 2, Some 3] \<and> data a = 1"
proof -
  let ?cfg = "IndexTraits_int k 4"
  from pushed_int [of "[1, 2, 3 :: int]" k]
  obtain h a where r: "push_back_all ?cfg empty_heap Array_default [1, 2, 3 :: int] = Ok (h, a) ()"
    "array_ok ?cfg h a" "nUsed a = 3" "elems h a = [Some 1, Some 2, Some 3]"
    by (auto simp del: push_back_all.simps)
  have "map_option (\<lambda>a. (data a, nAllocated a))
          (array_of (push_back_all ?cfg empty_heap Array_default [1, 2, 3 :: int])) = Some (1, 4)"
    using capacity_of_three by (cases k) (simp_all del: push_back_all.simps)
  with r(1) have "nAllocated a = 4" "data a = 1"
    by (simp_all add: array_of_def del: push_back_all.simps)
  with r show ?thesis by blast
qed


text \<open>
  Why the number of bytes is assumed to fit wherever a buffer is allocated: with a 64-bit
  index type and elements of 4 bytes, \<open>2^62\<close> elements are within \<open>max_size\<close>, the product
  is \<open>2^64\<close>, which is \<open>0\<close> in \<^verbatim>\<open>size_t\<close>, and the block that \<^verbatim>\<open>allocN\<close> returns has no
  slot; \<^verbatim>\<open>reserve\<close> adopts it as a buffer of capacity \<open>2^62\<close>.
\<close>

lemma allocN_wraps:
  "4611686018427387904 \<le> max_size (IndexTraits_long_long k 4) \<and>
   \<not> bytes_fit (IndexTraits_long_long k 4) 4611686018427387904 \<and>
   map_option (\<lambda>(h', p). (p, blocks h' p, brk h'))
     (allocN (IndexTraits_long_long k 4) h 4611686018427387904)
     = Some (brk h, Some 0, brk h + 1) \<and>
   (case reserve (IndexTraits_long_long k 4) (empty_heap :: 'a heap) Array_default
           4611686018427387904 of
      Ok (h', a') u \<Rightarrow> (capacity a', blocks h' (data a')) | _ \<Rightarrow> (0, None))
     = (4611686018427387904, Some 0)"
  by (simp add: IndexTraits_long_long_def bytes_fit_def allocN_def Let_def ull_def
      reserve_def of_option_def freeN_def Array_default_def empty_heap_def capacity_def)

subsection \<open>Sources that overlap the container\<close>

text \<open>
  Claim C7, as the code has it. Both overlap checks are written with \<^verbatim>\<open>SimTK_ERRCHK\<close> and
  compare the source range with \<^verbatim>\<open>[begin(), end())\<close>, the elements in use. In a build that
  keeps these checks, a source range that shares a slot \<open>q\<close> with the elements of the
  container makes \<^verbatim>\<open>assign(first, last1)\<close> and \<^verbatim>\<open>insert(p, first, last1)\<close> raise InvalidRange
  with the container and the memory as they were.
\<close>

theorem overlapping_source_rejected:
  assumes "keep_errchk cfg"
    and "first \<le> q" "q < last1" "begin_a a \<le> q" "q < end_a a"
  shows "assign cfg h a first last1 = Raise InvalidRange (h, a) \<and>
         insert_range cfg h a p first last1 = Raise InvalidRange (h, a)"
proof -
  have "\<not> (last1 \<le> begin_a a \<or> end_a a \<le> first)" using assms(2-5) by auto
  then have "errchk_fails cfg (last1 \<le> begin_a a \<or> end_a a \<le> first)"
    using assms(1) by (simp add: errchk_fails_def)
  then show ?thesis by (simp add: assign_def insert_range_def)
qed

text \<open>A container holding 1, 2, 3, and as source its own second and third element.\<close>

theorem overlapping_source_rejected_witness:
  "and_then (push_back_all (IndexTraits_int True 4) empty_heap Array_default [1, 2, 3 :: int])
     (\<lambda>(h, a) u. assign (IndexTraits_int True 4) h a (begin_a a + 1) (end_a a))
     = and_then (push_back_all (IndexTraits_int True 4) empty_heap Array_default [1, 2, 3 :: int])
         (\<lambda>(h, a) u. Raise InvalidRange (h, a)) \<and>
   and_then (push_back_all (IndexTraits_int True 4) empty_heap Array_default [1, 2, 3 :: int])
     (\<lambda>(h, a) u. insert_range (IndexTraits_int True 4) h a (begin_a a) (begin_a a + 1) (end_a a))
     = and_then (push_back_all (IndexTraits_int True 4) empty_heap Array_default [1, 2, 3 :: int])
         (\<lambda>(h, a) u. Raise InvalidRange (h, a))"
proof -
  let ?cfg = "IndexTraits_int True 4"
  from three_pushed [of True]
  obtain h a where r: "push_back_all ?cfg empty_heap Array_default [1, 2, 3 :: int] = Ok (h, a) ()"
    "nUsed a = 3"
    by blast
  have k: "keep_errchk ?cfg" by (simp add: IndexTraits_int_def)
  have q: "begin_a a + 1 \<le> begin_a a + 1" "begin_a a + 1 < end_a a"
    "begin_a a \<le> begin_a a + 1"
    using r(2) by (simp_all add: begin_a_def end_a_def)
  from overlapping_source_rejected [OF k q(1,2,3,2), of h "begin_a a"] r(1)
  show ?thesis by (simp add: and_then_def del: push_back_all.simps)
qed

text \<open>
  In a build without the \<^verbatim>\<open>SimTK_ERRCHK\<close> checks the overlapping assignment raises nothing:
  the elements are cleared and then read again as the source.
\<close>

theorem overlapping_source_unchecked:
  "raised (and_then (push_back_all (IndexTraits_int False 4) empty_heap Array_default [1, 2, 3 :: int])
     (\<lambda>(h, a) u. assign (IndexTraits_int False 4) h a (begin_a a) (end_a a))) = None"
  by code_simp

subsection \<open>Self-assignment\<close>

text \<open>
  Claim C10. The copy assignment operator with source and destination the same object
  returns at once, whatever the configuration, the memory and the state of the object:
  nothing changes, and nothing is constructed, destructed, allocated or released. The
  container's own range handed to \<^verbatim>\<open>assign(first, last1)\<close> is rejected by the overlap check
  of that function (in a build that keeps the \<^verbatim>\<open>SimTK_ERRCHK\<close> checks, for a container
  with elements). The test for self-assignment is all that the copy assignment operator has
  more than the converting one: for two different objects it does what the converting
  assignment does with the same destination and source.
\<close>

theorem self_assignment:
  "operator_assign cfg h objs x x = Ok (h, objs) () \<and>
   (keep_errchk cfg \<and> 0 < size_a a \<longrightarrow>
      assign cfg h a (begin_a a) (end_a a) = Raise InvalidRange (h, a)) \<and>
   (x \<noteq> y \<longrightarrow>
      operator_assign cfg h objs x y =
        (case operator_assign_converting cfg h (objs x) (objs y) of
           Ok (h1, a1) u \<Rightarrow> Ok (h1, objs(x := a1)) ()
         | Raise e (h1, a1) \<Rightarrow> Raise e (h1, objs(x := a1))
         | Undefined \<Rightarrow> Undefined))"
proof (intro conjI impI)
  show "operator_assign cfg h objs x x = Ok (h, objs) ()"
    by (simp add: operator_assign_def)
next
  assume "keep_errchk cfg \<and> 0 < size_a a"
  then show "assign cfg h a (begin_a a) (end_a a) = Raise InvalidRange (h, a)"
    by (simp add: assign_def errchk_fails_def size_a_def begin_a_def end_a_def)
next
  assume "x \<noteq> y"
  then show "operator_assign cfg h objs x y =
        (case operator_assign_converting cfg h (objs x) (objs y) of
           Ok (h1, a1) u \<Rightarrow> Ok (h1, objs(x := a1)) ()
         | Raise e (h1, a1) \<Rightarrow> Raise e (h1, objs(x := a1))
         | Undefined \<Rightarrow> Undefined)"
    by (simp add: operator_assign_def operator_assign_converting_def)
qed

text \<open>
  At an empty container in a fresh memory, and at a container holding 1, 2, 3 (the object
  0 of the store; the object 1 is a default-constructed container).
\<close>

theorem self_assignment_witness:
  "operator_assign (IndexTraits_int True 4) (empty_heap :: int heap) (\<lambda>i. Array_default) 0 0
     = Ok (empty_heap, \<lambda>i. Array_default) () \<and>
   (case push_back_all (IndexTraits_int True 4) empty_heap Array_default [1, 2, 3 :: int] of
      Ok (h, a) u \<Rightarrow>
        operator_assign (IndexTraits_int True 4) h (\<lambda>i. a) 0 0 = Ok (h, \<lambda>i. a) () \<and>
        assign (IndexTraits_int True 4) h a (begin_a a) (end_a a) = Raise InvalidRange (h, a) \<and>
        operator_assign (IndexTraits_int True 4) h ((\<lambda>i. a)(1 := Array_default)) 1 0 =
          (case operator_assign_converting (IndexTraits_int True 4) h Array_default a of
             Ok (h1, a1) u \<Rightarrow> Ok (h1, ((\<lambda>i. a)(1 := Array_default))(1 := a1)) ()
           | Raise e (h1, a1) \<Rightarrow> Raise e (h1, ((\<lambda>i. a)(1 := Array_default))(1 := a1))
           | Undefined \<Rightarrow> Undefined)
    | _ \<Rightarrow> False)"
proof -
  let ?cfg = "IndexTraits_int True 4"
  from three_pushed [of True]
  obtain h a where r: "push_back_all ?cfg empty_heap Array_default [1, 2, 3 :: int] = Ok (h, a) ()"
    "nUsed a = 3"
    by blast
  have k: "keep_errchk ?cfg \<and> 0 < size_a a"
    using r(2) by (simp add: size_a_def IndexTraits_int_def)
  have 0: "operator_assign ?cfg (empty_heap :: int heap) (\<lambda>i. Array_default) 0 0
     = Ok (empty_heap, \<lambda>i. Array_default) ()"
    using self_assignment [of ?cfg "empty_heap :: int heap" "\<lambda>i. Array_default" 0] by simp
  have 1: "operator_assign ?cfg h (\<lambda>i. a) 0 0 = Ok (h, \<lambda>i. a) ()"
    "assign ?cfg h a (begin_a a) (end_a a) = Raise InvalidRange (h, a)"
    using self_assignment [of ?cfg h "\<lambda>i. a" 0 a] k by simp_all
  have ne: "(1::nat) \<noteq> 0" by simp
  have o: "((\<lambda>i. a)(1 := Array_default)) (1::nat) = Array_default"
    "((\<lambda>i. a)(1 := Array_default)) (0::nat) = a"
    by simp_all
  have 2: "operator_assign ?cfg h ((\<lambda>i. a)(1 := Array_default)) 1 0 =
          (case operator_assign_converting ?cfg h Array_default a of
             Ok (h1, a1) u \<Rightarrow> Ok (h1, ((\<lambda>i. a)(1 := Array_default))(1 := a1)) ()
           | Raise e (h1, a1) \<Rightarrow> Raise e (h1, ((\<lambda>i. a)(1 := Array_default))(1 := a1))
           | Undefined \<Rightarrow> Undefined)"
    using self_assignment [of ?cfg h "(\<lambda>i. a)(1 := Array_default)" 1 a 0] ne
    unfolding o by blast
  show ?thesis
    unfolding r(1) by (simp only: result.case prod.case) (intro conjI 0 1 2)
qed

subsection \<open>Erasing one element\<close>

lemma length_elems: "length (elems h a) = nat (nUsed a)"
  by (simp add: elems_def)

lemma elems_nth: "j < nat (nUsed a) \<Longrightarrow> elems h a ! j = deref h (data a + int j)"
  by (simp add: elems_def)

lemma last_elems: "0 < nUsed a \<Longrightarrow> last (elems h a) = deref h (data a + (nUsed a - 1))"
proof -
  assume n: "0 < nUsed a"
  then have "elems h a \<noteq> []" using length_elems [of h a] by auto
  then have "last (elems h a) = elems h a ! (nat (nUsed a) - 1)"
    by (simp add: last_conv_nth length_elems)
  also have "\<dots> = deref h (data a + int (nat (nUsed a) - 1))"
    using n by (intro elems_nth) auto
  also have "int (nat (nUsed a) - 1) = nUsed a - 1" using n by auto
  finally show ?thesis .
qed

lemma eraseFast_ok:
  assumes cfg: "cfg_ok cfg" and ok: "array_ok cfg h a"
    and p: "begin_a a \<le> p" "p < end_a a"
  shows "\<exists>h'. eraseFast cfg h a p = Ok (h', a\<lparr>nUsed := nUsed a - 1\<rparr>) p \<and>
           array_ok cfg h' (a\<lparr>nUsed := nUsed a - 1\<rparr>) \<and>
           elems h' (a\<lparr>nUsed := nUsed a - 1\<rparr>)
             = butlast ((elems h a)[nat (p - begin_a a) := last (elems h a)])"
proof -
  from p have pr: "data a \<le> p" "p < data a + nUsed a" by (simp_all add: begin_a_def end_a_def)
  then have ne: "0 < nUsed a" by simp
  from ok have u: "nUsed a \<le> nAllocated a" "nAllocated a \<le> size_max cfg"
    and live: "live_on h (data a) (data a + nUsed a)"
    and raw: "raw_on h (data a + nUsed a) (data a + nAllocated a)"
    by (simp_all add: array_ok_def)
  have st: "size_type cfg (nUsed a - 1) = nUsed a - 1"
    using u ne by (intro size_type_id [OF cfg] representable_nonneg) auto
  let ?l = "data a + (nUsed a - 1)"
  let ?a' = "a\<lparr>nUsed := nUsed a - 1\<rparr>"
  let ?i = "nat (p - begin_a a)"
  from live_onD [OF live pr] obtain w where w: "cells h p = Some (Live w)" ..
  from live_onD [OF live, of ?l] ne obtain v where v: "cells h ?l = Some (Live v)" by auto
  define h1 where "h1 = h\<lparr>cells := (cells h)(p := Some Raw), events := events h @ [Destructed (p)]\<rparr>"
  have d1: "destruct h p = Some h1" using w by (simp add: destruct_Live h1_def)
  have lastv: "last (elems h a) = Some v" using v ne by (simp add: last_elems deref_def)
  have len: "length (elems h a) = nat (nUsed a)" by (rule length_elems)
  show ?thesis
  proof (cases "p + 1 = end_a a")
    case True
    then have pl: "p = ?l" by (simp add: end_a_def)
    have run: "eraseFast cfg h a p = Ok (h1, ?a') p"
      using d1 True st by (simp add: eraseFast_def and_then_def)
    have live': "live_on h1 (data a) (data a + (nUsed a - 1))"
      using live pl by (auto simp: live_on_def h1_def)
    have raw': "raw_on h1 (data a + (nUsed a - 1)) (data a + nAllocated a)"
      using raw pl by (auto simp: raw_on_def h1_def)
    have ok': "array_ok cfg h1 ?a'"
      using ok ne live' raw' by (simp add: array_ok_def h1_def)
    have "?i = length (elems h a) - 1"
      using pl ne by (simp add: begin_a_def nat_diff_distrib length_elems)
    moreover have "elems h a \<noteq> []" using ne len by auto
    ultimately have "last (elems h a) = elems h a ! ?i" by (simp add: last_conv_nth)
    then have "(elems h a)[?i := last (elems h a)] = elems h a" by simp
    moreover have "elems h1 ?a' = butlast (elems h a)"
    proof (rule nth_equalityI)
      show "length (elems h1 ?a') = length (butlast (elems h a))"
        using ne by (simp add: length_elems nat_diff_distrib)
    next
      fix j assume "j < length (elems h1 ?a')"
      then have j: "j < nat (nUsed a - 1)" by (simp add: length_elems)
      then have "int j < nUsed a - 1" by simp
      then have "data a + int j \<noteq> p" using pl by simp
      then have "elems h1 ?a' ! j = deref h (data a + int j)"
        using j by (simp add: elems_nth deref_def h1_def)
      also have "\<dots> = elems h a ! j" using j by (simp add: elems_nth)
      also have "\<dots> = butlast (elems h a) ! j"
        using j ne by (simp add: nth_butlast length_elems nat_diff_distrib)
      finally show "elems h1 ?a' ! j = butlast (elems h a) ! j" .
    qed
    ultimately show ?thesis using run ok' by simp
  next
    case False
    then have pl: "p \<noteq> ?l" by (auto simp: end_a_def)
    then have plt: "p < ?l" using pr by simp
    define h3 where "h3 = h\<lparr>cells := (cells h)(p := Some (Live v), ?l := Some Raw),
      events := events h @ [Destructed p, Constructed p, Destructed ?l]\<rparr>"
    have c1: "cells h1 ?l = Some (Live v)" using v pl by (simp add: h1_def)
    have mv: "moveOneElement h1 p ?l = Some h3"
      using c1 pl by (simp add: moveOneElement_def deref_def construct_def destruct_def h1_def h3_def)
    have "\<not> errchk_fails cfg (\<not> empty_a a)" using ne by (simp add: errchk_fails_def empty_a_def)
    then have run: "eraseFast cfg h a p = Ok (h3, ?a') p"
      using d1 False st mv by (simp add: eraseFast_def and_then_def of_option_def)
    have live': "live_on h3 (data a) (data a + (nUsed a - 1))"
      using live by (auto simp: live_on_def h3_def)
    have raw': "raw_on h3 (data a + (nUsed a - 1)) (data a + nAllocated a)"
      using raw plt by (auto simp: raw_on_def h3_def)
    have ok': "array_ok cfg h3 ?a'"
      using ok ne live' raw' by (simp add: array_ok_def h3_def)
    define i where "i = nat (p - begin_a a)"
    have i: "p = data a + int i" "i < nat (nUsed a - 1)"
      using pr plt by (simp_all add: begin_a_def i_def)
    have "elems h3 ?a' = butlast ((elems h a)[i := last (elems h a)])"
    proof (rule nth_equalityI)
      show "length (elems h3 ?a') = length (butlast ((elems h a)[i := last (elems h a)]))"
        using ne by (simp add: length_elems nat_diff_distrib)
    next
      fix j assume "j < length (elems h3 ?a')"
      then have j: "j < nat (nUsed a - 1)" by (simp add: length_elems)
      then have jl: "data a + int j \<noteq> ?l" by simp
      have jn: "j < nat (nUsed a)" using j by simp
      have "butlast ((elems h a)[i := last (elems h a)]) ! j
              = ((elems h a)[i := last (elems h a)]) ! j"
        using j ne by (simp add: nth_butlast length_elems nat_diff_distrib)
      also have "\<dots> = (if j = i then Some v else deref h (data a + int j))"
      proof -
        have "i < length (elems h a)" using i(2) by (simp add: length_elems)
        then show ?thesis using jn by (simp add: nth_list_update lastv elems_nth)
      qed
      also have "\<dots> = elems h3 ?a' ! j"
      proof (cases "j = i")
        case True
        then have "data a + int j = p" using i(1) by simp
        then show ?thesis using True j pl by (simp add: elems_nth deref_def h3_def)
      next
        case False
        then have "data a + int j \<noteq> p" using i(1) by simp
        then show ?thesis using False j jl by (simp add: elems_nth deref_def h3_def)
      qed
      finally show "elems h3 ?a' ! j = butlast ((elems h a)[i := last (elems h a)]) ! j" ..
    qed
    then show ?thesis using run ok' by (simp add: i_def)
  qed
qed

text \<open>
  Claim C6. For a position \<open>p\<close> of an element of a well-formed container (the precondition
  the source asserts), \<^verbatim>\<open>eraseFast(p)\<close> returns \<open>p\<close>; the length goes down by one, capacity
  and buffer stay; the elements are the old ones with the last element written over the one
  at \<open>p\<close> and the last slot dropped (when \<open>p\<close> is the last position this is the old list
  without its last element), and the new state is well formed, so the slot given up holds
  no element. On 1, 2, 3, 4, 5 erasing at position 2 gives 1, 2, 5, 4 with \<^verbatim>\<open>eraseFast\<close> and
  1, 2, 4, 5 with \<^verbatim>\<open>erase\<close>.
\<close>

theorem eraseFast_spec:
  assumes "cfg_ok cfg" and "array_ok cfg h a" and "begin_a a \<le> p" and "p < end_a a"
  shows "(\<exists>h' a'. eraseFast cfg h a p = Ok (h', a') p \<and>
            size_a a' = size_a a - 1 \<and> capacity a' = capacity a \<and> data a' = data a \<and>
            elems h' a' = butlast ((elems h a)[nat (p - begin_a a) := last (elems h a)]) \<and>
            array_ok cfg h' a') \<and>
         contents (and_then
            (push_back_all (IndexTraits_int False 4) empty_heap Array_default [1, 2, 3, 4, 5 :: int])
            (\<lambda>(h, a) u. eraseFast (IndexTraits_int False 4) h a (begin_a a + 2)))
           = Some [Some 1, Some 2, Some 5, Some 4] \<and>
         contents (and_then
            (push_back_all (IndexTraits_int False 4) empty_heap Array_default [1, 2, 3, 4, 5 :: int])
            (\<lambda>(h, a) u. erase (IndexTraits_int False 4) h a (begin_a a + 2)))
           = Some [Some 1, Some 2, Some 4, Some 5]"
proof (intro conjI)
  from eraseFast_ok [OF assms]
  obtain h' where "eraseFast cfg h a p = Ok (h', a\<lparr>nUsed := nUsed a - 1\<rparr>) p"
    "array_ok cfg h' (a\<lparr>nUsed := nUsed a - 1\<rparr>)"
    "elems h' (a\<lparr>nUsed := nUsed a - 1\<rparr>)
             = butlast ((elems h a)[nat (p - begin_a a) := last (elems h a)])"
    by blast
  then show "\<exists>h' a'. eraseFast cfg h a p = Ok (h', a') p \<and>
            size_a a' = size_a a - 1 \<and> capacity a' = capacity a \<and> data a' = data a \<and>
            elems h' a' = butlast ((elems h a)[nat (p - begin_a a) := last (elems h a)]) \<and>
            array_ok cfg h' a'"
    by (intro exI [of _ h'] exI [of _ "a\<lparr>nUsed := nUsed a - 1\<rparr>"])
       (simp add: size_a_def capacity_def)
next
  show "contents (and_then
            (push_back_all (IndexTraits_int False 4) empty_heap Array_default [1, 2, 3, 4, 5 :: int])
            (\<lambda>(h, a) u. eraseFast (IndexTraits_int False 4) h a (begin_a a + 2)))
           = Some [Some 1, Some 2, Some 5, Some 4]"
    by code_simp
next
  show "contents (and_then
            (push_back_all (IndexTraits_int False 4) empty_heap Array_default [1, 2, 3, 4, 5 :: int])
            (\<lambda>(h, a) u. erase (IndexTraits_int False 4) h a (begin_a a + 2)))
           = Some [Some 1, Some 2, Some 4, Some 5]"
    by code_simp
qed

text \<open>The general statement at the container 1, 2, 3, 4, 5 and position 2.\<close>

theorem eraseFast_spec_witness:
  "(case push_back_all (IndexTraits_int True 4) empty_heap Array_default [1, 2, 3, 4, 5 :: int] of
      Ok (h, a) u \<Rightarrow>
        (\<exists>h' a'. eraseFast (IndexTraits_int True 4) h a (begin_a a + 2) = Ok (h', a') (begin_a a + 2) \<and>
           size_a a' = 4 \<and> capacity a' = capacity a \<and>
           elems h' a' = [Some 1, Some 2, Some 5, Some 4])
    | _ \<Rightarrow> False)"
proof -
  let ?cfg = "IndexTraits_int True 4"
  from pushed_int [of "[1, 2, 3, 4, 5 :: int]" True]
  obtain h a where r: "push_back_all ?cfg empty_heap Array_default [1, 2, 3, 4, 5 :: int] = Ok (h, a) ()"
    "array_ok ?cfg h a" "nUsed a = 5" "elems h a = [Some 1, Some 2, Some 3, Some 4, Some 5]"
    by (auto simp del: push_back_all.simps)
  have p: "begin_a a \<le> begin_a a + 2" "begin_a a + 2 < end_a a"
    using r(3) by (simp_all add: begin_a_def end_a_def)
  have two: "nat 2 = Suc (Suc 0)" by simp
  from eraseFast_spec [OF cfg_ok_int r(2) p] r(3,4)
  have "\<exists>h' a'. eraseFast ?cfg h a (begin_a a + 2) = Ok (h', a') (begin_a a + 2) \<and>
           size_a a' = 4 \<and> capacity a' = capacity a \<and>
           elems h' a' = [Some 1, Some 2, Some 5, Some 4]"
    by (auto simp: size_a_def two simp del: push_back_all.simps)
  with r(1) show ?thesis by (simp del: push_back_all.simps)
qed

subsection \<open>Assignment from a range of known size\<close>

lemma copyConstruct_spec:
  "b \<le> e \<Longrightarrow> live_on h src (src + (e - b)) \<Longrightarrow> raw_on h b e \<Longrightarrow>
   \<exists>h'. copyConstruct h b e src = Some h' \<and> blocks h' = blocks h \<and> brk h' = brk h \<and>
        (\<forall>q. cells h' q = (if b \<le> q \<and> q < e then cells h (src + (q - b)) else cells h q))"
proof (induction h b e src rule: copyConstruct.induct)
  case (1 h b e src)
  show ?case
  proof (cases "b = e")
    case True
    then show ?thesis by (subst copyConstruct.simps) auto
  next
    case False
    with "1.prems" have lt: "b < e" by simp
    from live_onD [OF "1.prems"(2), of src] lt obtain v where v: "cells h src = Some (Live v)"
      by auto
    from "1.prems"(3) lt have r: "cells h b = Some Raw" by (simp add: raw_on_def)
    define h1 where "h1 = h\<lparr>cells := (cells h)(b := Some (Live v)), events := events h @ [Constructed (b)]\<rparr>"
    have c1: "construct h b v = Some h1" using r by (simp add: construct_Raw h1_def)
    have live1: "live_on h1 (src + 1) (src + 1 + (e - (b + 1)))"
      using "1.prems"(2) by (auto simp: live_on_def h1_def)
    have raw1: "raw_on h1 (b + 1) e"
      using "1.prems"(3) by (auto simp: raw_on_def h1_def)
    from "1.IH" [OF False _ deref_Live [OF v] c1 _ live1 raw1] lt
    obtain h' where h': "copyConstruct h1 (b + 1) e (src + 1) = Some h'"
      "blocks h' = blocks h1" "brk h' = brk h1"
      "\<And>q. cells h' q =
           (if b + 1 \<le> q \<and> q < e then cells h1 (src + 1 + (q - (b + 1))) else cells h1 q)"
      by auto
    have run: "copyConstruct h b e src = Some h'"
      using lt False h'(1) c1 deref_Live [OF v] by (subst copyConstruct.simps) simp
    have cells': "cells h' q = (if b \<le> q \<and> q < e then cells h (src + (q - b)) else cells h q)"
      for q
    proof (cases "b + 1 \<le> q \<and> q < e")
      case True
      then have "src \<le> src + (q - b)" "src + (q - b) < src + (e - b)" by auto
      from live_onD [OF "1.prems"(2) this]
      obtain w where w: "cells h (src + (q - b)) = Some (Live w)" ..
      have "src + (q - b) \<noteq> b"
      proof
        assume "src + (q - b) = b"
        with w r show False by simp
      qed
      moreover have "src + 1 + (q - (b + 1)) = src + (q - b)" by simp
      ultimately show ?thesis using True by (simp add: h'(4) h1_def)
    next
      case False
      then show ?thesis using lt v by (auto simp: h'(4) h1_def)
    qed
    show ?thesis using run h'(2,3) cells' by (simp add: h1_def)
  qed
qed

lemma upt_shift:
  "map f [0 ..< Suc n] = f 0 # map (\<lambda>i. f (Suc i)) [0 ..< n]"
  unfolding upt_conv_Cons [OF zero_less_Suc] map_Suc_upt [symmetric] by (simp add: o_def)

lemma destruct_range_events:
  "destruct_range h b e = Some h' \<Longrightarrow>
   events h' = events h @ map (\<lambda>i. Destructed (b + int i)) [0 ..< nat (e - b)]"
proof (induction h b e rule: destruct_range.induct)
  case (1 h b e)
  show ?case
  proof (cases "b = e")
    case True
    with "1.prems" show ?thesis by (subst (asm) destruct_range.simps) simp
  next
    case False
    from "1.prems" False have lt: "b < e"
      by (subst (asm) destruct_range.simps) (simp split: if_splits)
    from "1.prems" False lt obtain h1 where st:
      "destruct h b = Some h1" "destruct_range h1 (b + 1) e = Some h'"
      by (subst (asm) destruct_range.simps) (auto split: bind_splits)
    have lt': "\<not> e < b" using lt by simp
    from "1.IH" [OF False lt' st]
    have ih: "events h' = events h1 @ map (\<lambda>i. Destructed (b + 1 + int i)) [0 ..< nat (e - (b + 1))]" .
    have n: "nat (e - b) = Suc (nat (e - (b + 1)))" using lt by simp
    show ?thesis
      unfolding n upt_shift using ih destruct_events [OF st(1)] by (simp add: add.assoc)
  qed
qed

lemma copyConstruct_events:
  "copyConstruct h b e src = Some h' \<Longrightarrow>
   events h' = events h @ map (\<lambda>i. Constructed (b + int i)) [0 ..< nat (e - b)]"
proof (induction h b e src rule: copyConstruct.induct)
  case (1 h b e src)
  show ?case
  proof (cases "b = e")
    case True
    with "1.prems" show ?thesis by (subst (asm) copyConstruct.simps) simp
  next
    case False
    from "1.prems" False have lt: "b < e"
      by (subst (asm) copyConstruct.simps) (simp split: if_splits)
    from "1.prems" False lt obtain v h1 where st:
      "deref h src = Some v" "construct h b v = Some h1"
      "copyConstruct h1 (b + 1) e (src + 1) = Some h'"
      by (subst (asm) copyConstruct.simps) (auto split: bind_splits)
    have lt': "\<not> e < b" using lt by simp
    from "1.IH" [OF False lt' st]
    have ih: "events h' = events h1 @ map (\<lambda>i. Constructed (b + 1 + int i)) [0 ..< nat (e - (b + 1))]" .
    have n: "nat (e - b) = Suc (nat (e - (b + 1)))" using lt by simp
    show ?thesis
      unfolding n upt_shift using ih construct_events [OF st(2)] by (simp add: add.assoc)
  qed
qed

lemma assignImpl_spec:
  assumes cfg: "cfg_ok cfg" and ok: "array_ok cfg h a"
    and ord: "first \<le> last1" and src: "live_on h first last1"
    and apart: "last1 \<le> begin_a a \<or> end_a a \<le> first"
    and fits: "last1 - first \<le> max_size cfg" and below: "last1 \<le> brk h"
    and bf: "bytes_fit cfg (last1 - first)"
  shows "\<exists>h' a'. assignImpl cfg h a first last1 = Ok (h', a') () \<and>
           array_ok cfg h' a' \<and> nUsed a' = last1 - first \<and>
           elems h' a' = map (\<lambda>i. deref h (first + int i)) [0 ..< nat (last1 - first)] \<and>
           (if nAllocated a < last1 - first \<or>
               max (min 4 (max_size cfg)) (last1 - first) < nAllocated a div 2
            then nAllocated a' = last1 - first \<and>
                 events h' = events h @
                   map (\<lambda>i. Destructed (data a + int i)) [0 ..< nat (nUsed a)] @
                   (if data a = 0 then [] else [Released (data a)]) @
                   (if last1 - first = 0 then [] else [Allocated (data a') (last1 - first)]) @
                   map (\<lambda>i. Constructed (data a' + int i)) [0 ..< nat (last1 - first)] \<and>
                 (if data a = 0 then True else blocks h' (data a) = None)
            else nAllocated a' = nAllocated a \<and> data a' = data a \<and>
                 events h' = events h @
                   map (\<lambda>i. Destructed (data a + int i)) [0 ..< nat (nUsed a)] @
                   map (\<lambda>i. Constructed (data a + int i)) [0 ..< nat (last1 - first)])"
proof -
  define m where "m = last1 - first"
  have m0: "0 \<le> m" using ord by (simp add: m_def)
  from ok have u: "0 \<le> nUsed a" "nUsed a \<le> nAllocated a" "nAllocated a \<le> size_max cfg"
    and bp: "0 < brk h"
    and live: "live_on h (data a) (data a + nUsed a)"
    and raw: "raw_on h (data a + nUsed a) (data a + nAllocated a)"
    by (simp_all add: array_ok_def)
  from ok have blk: "nAllocated a \<noteq> 0 \<Longrightarrow>
      0 < data a \<and> data a + nAllocated a \<le> brk h \<and> blocks h (data a) = Some (nAllocated a)"
    and nul: "nAllocated a = 0 \<Longrightarrow> data a = 0"
    by (simp_all add: array_ok_def split: if_splits)
  from cfg have mx: "max_size cfg \<le> size_max cfg" "max_size cfg < 2 ^ 63"
    by (simp_all add: cfg_ok_def)
  have c1: "\<not> errchk_fails cfg (first \<le> last1)" using ord by (simp add: errchk_fails_def)
  have "isSizeOK cfg m" using isSizeOK_iff [OF cfg, of m] m0 fits mx by (simp add: m_def)
  then have c2: "\<not> errchk_fails cfg (isSizeOK cfg (last1 - first))"
    by (simp add: errchk_fails_def m_def)
  have st: "size_type cfg (last1 - first) = m"
    using m0 fits mx by (simp add: m_def size_type_id [OF cfg] representable_nonneg)
  from destruct_range_spec [OF _ live] u
  obtain h1 where h1: "destruct_range h (data a) (data a + nUsed a) = Some h1"
    "blocks h1 = blocks h" "brk h1 = brk h"
    "\<And>q. cells h1 q = (if data a \<le> q \<and> q < data a + nUsed a then Some Raw else cells h q)"
    by auto
  have cl: "clear h a = Some (h1, a\<lparr>nUsed := 0\<rparr>)"
    using h1(1) by (simp add: clear_def begin_a_def end_a_def)
  have ev1: "events h1 = events h @ map (\<lambda>i. Destructed (data a + int i)) [0 ..< nat (nUsed a)]"
    using destruct_range_events [OF h1(1)] by simp
  \<comment> \<open>the source is apart from the whole block of the container\<close>
  have out: "\<not> (data a \<le> q \<and> q < data a + nAllocated a)" if "first \<le> q" "q < last1" for q
  proof
    assume in_blk: "data a \<le> q \<and> q < data a + nAllocated a"
    from live_onD [OF src that] obtain w where w: "cells h q = Some (Live w)" ..
    have "\<not> (data a \<le> q \<and> q < data a + nUsed a)"
      using apart that by (auto simp: begin_a_def end_a_def)
    with in_blk have "cells h q = Some Raw" using raw by (auto simp: raw_on_def)
    with w show False by simp
  qed
  have src1: "cells h1 q = cells h q" if "first \<le> q" "q < last1" for q
    using out [OF that] u by (auto simp: h1(4))
  have raw1: "raw_on h1 (data a) (data a + nAllocated a)"
    using raw by (auto simp: raw_on_def h1(4))
  define R where "R \<longleftrightarrow> nAllocated a < last1 - first \<or>
               max (min 4 (max_size cfg)) (last1 - first) < nAllocated a div 2"
  let ?a2 = "a\<lparr>nUsed := m\<rparr>"
  have Req: "(nAllocated ?a2 < m \<or> tdiv (nAllocated ?a2) 2 > max (minAlloc cfg) m) \<longleftrightarrow> R"
    using u by (simp add: tdiv_nonneg minAlloc_eq [OF cfg] min.commute R_def m_def)
  show ?thesis
  proof (cases R)
    case False
    with Req have "\<not> (nAllocated ?a2 < m \<or> tdiv (nAllocated ?a2) 2 > max (minAlloc cfg) m)"
      by blast
    then have re: "reallocateIfAdvisable cfg h1 ?a2 m = Some (h1, ?a2)"
      unfolding reallocateIfAdvisable_def by (simp only: if_False)
    from False have mle: "m \<le> nAllocated a" by (simp add: R_def m_def)
    have l: "live_on h1 first (first + (data a + m - data a))"
      using src src1 by (auto simp: live_on_def m_def)
    have r: "raw_on h1 (data a) (data a + m)"
      using raw1 mle by (auto simp: raw_on_def)
    from copyConstruct_spec [OF _ l r] m0
    obtain h4 where h4: "copyConstruct h1 (data a) (data a + m) first = Some h4"
      "blocks h4 = blocks h1" "brk h4 = brk h1"
      "\<And>q. cells h4 q = (if data a \<le> q \<and> q < data a + m
                           then cells h1 (first + (q - data a)) else cells h1 q)"
      by auto
    have run: "assignImpl cfg h a first last1 = Ok (h4, ?a2) ()"
      using c1 c2 cl st re h4(1) by (simp add: assignImpl_def of_option_def)
    have new: "cells h4 (data a + i) = cells h (first + i)" if "0 \<le> i" "i < m" for i
      using that src1 [of "first + i"] by (simp add: h4(4) m_def)
    have live4: "live_on h4 (data ?a2) (data ?a2 + nUsed ?a2)"
      unfolding live_on_def
    proof (intro allI impI)
      fix q assume q: "data ?a2 \<le> q \<and> q < data ?a2 + nUsed ?a2"
      then have "cells h4 q = cells h (first + (q - data a))"
        using new [of "q - data a"] by simp
      moreover have "\<exists>v. cells h (first + (q - data a)) = Some (Live v)"
        using q by (intro live_onD [OF src]) (auto simp: m_def)
      ultimately show "\<exists>v. cells h4 q = Some (Live v)" by simp
    qed
    have raw4: "raw_on h4 (data ?a2 + nUsed ?a2) (data ?a2 + nAllocated ?a2)"
      using raw1 m0 by (auto simp: raw_on_def h4(4))
    have ok4: "array_ok cfg h4 ?a2"
      using ok m0 mle live4 raw4 by (simp add: array_ok_def h4(2,3) h1(2,3))
    have el: "elems h4 ?a2 = map (\<lambda>i. deref h (first + int i)) [0 ..< nat m]"
      using new by (auto simp: elems_def deref_def)
    have ev4: "events h4 = events h @
                   map (\<lambda>i. Destructed (data a + int i)) [0 ..< nat (nUsed a)] @
                   map (\<lambda>i. Constructed (data a + int i)) [0 ..< nat m]"
      using copyConstruct_events [OF h4(1)] ev1 by simp
    show ?thesis
      unfolding R_def [symmetric]
      using run ok4 el False ev4
      by (intro exI [of _ h4] exI [of _ ?a2]) (simp add: m_def)
  next
    case True
    with Req have "nAllocated ?a2 < m \<or> tdiv (nAllocated ?a2) 2 > max (minAlloc cfg) m"
      by blast
    then have re: "reallocateIfAdvisable cfg h1 ?a2 m = reallocateNoDestructOrConstruct cfg h1 ?a2 m"
      unfolding reallocateIfAdvisable_def by (simp only: if_True)
    define h2 where "h2 = (if data a = 0 then h1 else
        h1\<lparr>cells := (\<lambda>q. if data a \<le> q \<and> q < data a + nAllocated a then None else cells h1 q),
           blocks := (blocks h1)(data a := None), events := events h1 @ [Released (data a)]\<rparr>)"
    have f: "freeN h1 (data a) = Some h2"
    proof (cases "nAllocated a = 0")
      case True then show ?thesis using nul by (simp add: freeN_def h2_def)
    next
      case False
      with blk have "0 < data a" "blocks h (data a) = Some (nAllocated a)" by auto
      then show ?thesis by (simp add: freeN_def h2_def h1(2))
    qed
    have brk2: "brk h2 = brk h" by (simp add: h2_def h1(3))
    have src2: "cells h2 q = cells h q" if "first \<le> q" "q < last1" for q
      using out [OF that] src1 [OF that] by (auto simp: h2_def)
    define h3 where "h3 = (if m = 0 then h2 else
        h2\<lparr>cells := (\<lambda>q. if brk h \<le> q \<and> q < brk h + m then Some Raw else cells h2 q),
           blocks := (blocks h2)(brk h := Some m), brk := brk h + m,
           events := events h2 @ [Allocated (brk h) m]\<rparr>)"
    define p where "p = (if m = 0 then 0 else brk h)"
    have al: "allocN cfg h2 m = Some (h3, p)"
    proof (cases "m = 0")
      case True
      then show ?thesis by (simp add: allocN_def h3_def p_def)
    next
      case False
      with m0 have "0 < m" by simp
      from allocN_fits [OF this, of cfg h2] bf False show ?thesis
        by (simp add: h3_def p_def brk2 m_def)
    qed
    let ?a3 = "\<lparr>data = p, nUsed = m, nAllocated = m\<rparr>"
    have a3: "a\<lparr>nUsed := m, data := 0, nAllocated := 0, data := p, nAllocated := m\<rparr> = ?a3"
      by simp
    have re2: "reallocateNoDestructOrConstruct cfg h1 ?a2 m = Some (h3, ?a3)"
      using f al a3
      by (simp add: reallocateNoDestructOrConstruct_def deallocateNoDestruct_def
          allocateNoConstruct_def)
    have src3: "cells h3 q = cells h q" if "first \<le> q" "q < last1" for q
      using src2 [OF that] that below by (auto simp: h3_def)
    have l: "live_on h3 first (first + (p + m - p))"
      using src src3 by (auto simp: live_on_def m_def)
    have r: "raw_on h3 p (p + m)"
      by (auto simp: raw_on_def h3_def p_def)
    from copyConstruct_spec [OF _ l r] m0
    obtain h4 where h4: "copyConstruct h3 p (p + m) first = Some h4"
      "blocks h4 = blocks h3" "brk h4 = brk h3"
      "\<And>q. cells h4 q = (if p \<le> q \<and> q < p + m
                           then cells h3 (first + (q - p)) else cells h3 q)"
      by auto
    have run: "assignImpl cfg h a first last1 = Ok (h4, ?a3) ()"
      using c1 c2 cl st re re2 h4(1) by (simp add: assignImpl_def of_option_def)
    have new: "cells h4 (p + i) = cells h (first + i)" if "0 \<le> i" "i < m" for i
      using that src3 [of "first + i"] by (simp add: h4(4) m_def)
    have live4: "live_on h4 p (p + m)"
      unfolding live_on_def
    proof (intro allI impI)
      fix q assume q: "p \<le> q \<and> q < p + m"
      then have "cells h4 q = cells h (first + (q - p))"
        using new [of "q - p"] by simp
      moreover have "\<exists>v. cells h (first + (q - p)) = Some (Live v)"
        using q by (intro live_onD [OF src]) (auto simp: m_def)
      ultimately show "\<exists>v. cells h4 q = Some (Live v)" by simp
    qed
    have brk4: "brk h4 = brk h + m" using m0 by (auto simp: h4(3) h3_def brk2)
    have blk4: "m \<noteq> 0 \<Longrightarrow> blocks h4 p = Some m"
      by (simp add: h4(2) h3_def p_def)
    have "m \<le> size_max cfg" using fits mx by (simp add: m_def)
    then have ok4: "array_ok cfg h4 ?a3"
      using m0 bp live4 blk4 brk4 by (auto simp: array_ok_def raw_on_def p_def)
    have el: "elems h4 ?a3 = map (\<lambda>i. deref h (first + int i)) [0 ..< nat m]"
      using new by (auto simp: elems_def deref_def)
    have ev4: "events h4 = events h @
                   map (\<lambda>i. Destructed (data a + int i)) [0 ..< nat (nUsed a)] @
                   (if data a = 0 then [] else [Released (data a)]) @
                   (if m = 0 then [] else [Allocated p m]) @
                   map (\<lambda>i. Constructed (p + int i)) [0 ..< nat m]"
      using copyConstruct_events [OF h4(1)] ev1 by (simp add: h3_def h2_def p_def)
    have "data a \<noteq> brk h" using blk nul bp u by (cases "nAllocated a = 0") auto
    then have gone: "if data a = 0 then True else blocks h4 (data a) = None"
      by (simp add: h4(2) h3_def h2_def)
    show ?thesis
      unfolding R_def [symmetric]
      using run ok4 el True ev4 gone
      by (intro exI [of _ h4] exI [of _ ?a3]) (simp add: m_def)
  qed
qed

text \<open>
  Claim C5, as the code has it. The source is a range of \<open>m = last1 - first\<close> live elements
  in allocated memory, apart from the elements of the container, with \<open>m\<close> at most
  \<open>max_size\<close> (and a number of bytes that \<^verbatim>\<open>size_t\<close> holds). The assignment succeeds: all
  former elements are destructed, then \<open>m\<close> elements are constructed, equal to the source in
  its order, and these are the elements of the container, in a well-formed state. The
  allocator is called for at most one block. With \<open>need\<close> the larger of \<open>m\<close> and the minimum
  allocation \<open>min 4 max_size\<close>: a capacity of at least \<open>m\<close> and less than twice \<open>need\<close> is
  kept, with the buffer; a capacity below \<open>m\<close> or above twice \<open>need\<close> plus one is given up
  for a block of exactly \<open>m\<close> slots. (For a capacity of twice \<open>need\<close>, or one more, the
  statement leaves open which of the two happens.)
\<close>

theorem known_size_assignment:
  assumes "cfg_ok cfg" and "array_ok cfg h a"
    and "first \<le> last1" and "live_on h first last1" and "last1 \<le> brk h"
    and "last1 \<le> begin_a a \<or> end_a a \<le> first"
    and "last1 - first \<le> max_size cfg" and "bytes_fit cfg (last1 - first)"
  shows "\<exists>h' a'. assignImpl cfg h a first last1 = Ok (h', a') () \<and>
           size_a a' = last1 - first \<and>
           elems h' a' = map (\<lambda>i. deref h (first + int i)) [0 ..< nat (last1 - first)] \<and>
           array_ok cfg h' a' \<and>
           (assigned_in_place h a h' a' \<or> assigned_in_new_block h a h' a') \<and>
           (last1 - first \<le> capacity a \<and>
            capacity a < 2 * max (last1 - first) (min 4 (max_size cfg))
              \<longrightarrow> assigned_in_place h a h' a') \<and>
           (capacity a < last1 - first \<or>
            2 * max (last1 - first) (min 4 (max_size cfg)) + 1 < capacity a
              \<longrightarrow> assigned_in_new_block h a h' a')"
proof -
  define m where "m = last1 - first"
  define R where "R \<longleftrightarrow> nAllocated a < m \<or> max (min 4 (max_size cfg)) m < nAllocated a div 2"
  from assignImpl_spec [OF assms(1,2,3,4,6,7,5,8)]
  obtain h' a' where r: "assignImpl cfg h a first last1 = Ok (h', a') ()"
    "array_ok cfg h' a'" "nUsed a' = m"
    "elems h' a' = map (\<lambda>i. deref h (first + int i)) [0 ..< nat m]"
    and ev: "if R
            then nAllocated a' = m \<and>
                 events h' = events h @
                   map (\<lambda>i. Destructed (data a + int i)) [0 ..< nat (nUsed a)] @
                   (if data a = 0 then [] else [Released (data a)]) @
                   (if m = 0 then [] else [Allocated (data a') m]) @
                   map (\<lambda>i. Constructed (data a' + int i)) [0 ..< nat m] \<and>
                 (if data a = 0 then True else blocks h' (data a) = None)
            else nAllocated a' = nAllocated a \<and> data a' = data a \<and>
                 events h' = events h @
                   map (\<lambda>i. Destructed (data a + int i)) [0 ..< nat (nUsed a)] @
                   map (\<lambda>i. Constructed (data a + int i)) [0 ..< nat m]"
    unfolding m_def R_def by blast
  have new: "assigned_in_new_block h a h' a'" if R
    using ev that r(3) by (simp add: assigned_in_new_block_def capacity_def size_a_def)
  have old: "assigned_in_place h a h' a'" if "\<not> R"
    using ev that r(3) by (simp add: assigned_in_place_def capacity_def size_a_def)
  have 1: "assigned_in_place h a h' a' \<or> assigned_in_new_block h a h' a'"
    using new old by blast
  have 2: "assigned_in_place h a h' a'"
    if "m \<le> capacity a \<and> capacity a < 2 * max m (min 4 (max_size cfg))"
  proof (rule old)
    from that show "\<not> R" by (auto simp: R_def capacity_def)
  qed
  have 3: "assigned_in_new_block h a h' a'"
    if "capacity a < m \<or> 2 * max m (min 4 (max_size cfg)) + 1 < capacity a"
  proof (rule new)
    from that show R by (auto simp: R_def capacity_def)
  qed
  have sz: "size_a a' = m" using r(3) by (simp add: size_a_def)
  show ?thesis
    unfolding m_def [symmetric]
    using r(1) sz r(4) r(2) 1 2 3
    by (intro exI [of _ h'] exI [of _ a']) blast
qed

lemma source_and_destination:
  assumes v: "int (length vs) \<le> 2147483647" and w: "int (length ws) \<le> 2147483647" "ws \<noteq> []"
  shows "\<exists>h1 b h a.
           push_back_all (IndexTraits_int k 4) empty_heap Array_default vs = Ok (h1, b) () \<and>
           push_back_all (IndexTraits_int k 4) h1 Array_default ws = Ok (h, a) () \<and>
           array_ok (IndexTraits_int k 4) h a \<and> nUsed a = int (length ws) \<and>
           elems h a = map Some ws \<and> nUsed b = int (length vs) \<and>
           live_on h (begin_a b) (end_a b) \<and> end_a b \<le> brk h \<and> end_a b \<le> begin_a a \<and>
           map (\<lambda>i. deref h (begin_a b + int i)) [0 ..< length vs] = map Some vs"
proof -
  let ?cfg = "IndexTraits_int k 4"
  have mx: "max_size ?cfg = 2147483647" by (simp add: IndexTraits_int_def)
  have bfit: "bytes_fit ?cfg (min (max_size ?cfg) n)" for n
    by (rule bytes_fit_int) (simp add: mx)
  have ok0: "array_ok ?cfg (empty_heap :: 'a heap) Array_default"
    by (rule array_ok_default) (simp add: empty_heap_def)
  have "nAllocated Array_default \<le> max_size ?cfg"
    "nUsed Array_default + int (length vs) \<le> max_size ?cfg"
    using v by (simp_all add: Array_default_def mx)
  from push_back_all_spec [OF cfg_ok_int ok0 this bfit]
  obtain h1 b where b: "push_back_all ?cfg empty_heap Array_default vs = Ok (h1, b) ()"
    "array_ok ?cfg h1 b" "nUsed b = nUsed Array_default + int (length vs)"
    "elems h1 b = elems (empty_heap :: 'a heap) Array_default @ map Some vs"
    by blast
  from b(3) have nb: "nUsed b = int (length vs)" by (simp add: Array_default_def)
  from b(4) have eb: "elems h1 b = map Some vs" by (simp add: elems_default)
  from b(2) have bp: "0 < brk h1" and liveb: "live_on h1 (data b) (data b + nUsed b)"
    and ub: "0 \<le> nUsed b" "nUsed b \<le> nAllocated b"
    by (simp_all add: array_ok_def)
  have belowb: "data b + nUsed b \<le> brk h1"
    using b(2) ub bp by (cases "nAllocated b = 0") (auto simp: array_ok_def)
  have ok1: "array_ok ?cfg h1 Array_default" using bp by (rule array_ok_default)
  have "nAllocated Array_default \<le> max_size ?cfg"
    "nUsed Array_default + int (length ws) \<le> max_size ?cfg"
    using w by (simp_all add: Array_default_def mx)
  from push_back_all_spec [OF cfg_ok_int ok1 this bfit]
  obtain h a where a: "push_back_all ?cfg h1 Array_default ws = Ok (h, a) ()"
    "array_ok ?cfg h a" "nUsed a = nUsed Array_default + int (length ws)"
    "elems h a = elems h1 Array_default @ map Some ws" "brk h1 \<le> brk h"
    "data a = data Array_default \<and> nAllocated a = nAllocated Array_default \<or> brk h1 \<le> data a"
    "\<forall>q. q < brk h1 \<and>
         \<not> (data Array_default \<le> q \<and> q < data Array_default + nAllocated Array_default) \<longrightarrow>
         cells h q = cells h1 q"
    by blast
  from a(3) have na: "nUsed a = int (length ws)" by (simp add: Array_default_def)
  from a(4) have ea: "elems h a = map Some ws" by (simp add: elems_default)
  from a(7) have frame: "cells h q = cells h1 q" if "q < brk h1" for q
    using that by (simp add: Array_default_def)
  have "0 < nUsed a" using na w(2) by simp
  moreover from a(2) have "nUsed a \<le> nAllocated a" by (simp add: array_ok_def)
  ultimately have "nAllocated a \<noteq> nAllocated Array_default" by (simp add: Array_default_def)
  with a(6) have place: "brk h1 \<le> data a" by blast
  have live: "live_on h (begin_a b) (end_a b)"
    unfolding live_on_def begin_a_def end_a_def
  proof (intro allI impI)
    fix q assume q: "data b \<le> q \<and> q < data b + nUsed b"
    then have "q < brk h1" using belowb by simp
    then have "cells h q = cells h1 q" by (rule frame)
    moreover from live_onD [OF liveb] q have "\<exists>v. cells h1 q = Some (Live v)" by simp
    ultimately show "\<exists>v. cells h q = Some (Live v)" by simp
  qed
  have "map (\<lambda>i. deref h (begin_a b + int i)) [0 ..< length vs]
          = map (\<lambda>i. deref h1 (data b + int i)) [0 ..< length vs]"
  proof (rule map_cong [OF refl])
    fix i assume "i \<in> set [0 ..< length vs]"
    then have "data b + int i < brk h1" using belowb nb by simp
    then show "deref h (begin_a b + int i) = deref h1 (data b + int i)"
      by (simp add: deref_def frame begin_a_def)
  qed
  also have "\<dots> = elems h1 b" by (simp add: elems_def nb)
  finally have src: "map (\<lambda>i. deref h (begin_a b + int i)) [0 ..< length vs] = map Some vs"
    using eb by simp
  have "end_a b \<le> brk h" "end_a b \<le> begin_a a"
    using belowb a(5) place by (simp_all add: begin_a_def end_a_def)
  with b(1) a(1,2) na ea nb live src show ?thesis by blast
qed

lemma capacity_of_destination:
  "(case and_then (push_back_all (IndexTraits_int True 4) empty_heap Array_default [9, 8, 7, 6, 5 :: int])
           (\<lambda>(h1, b) u. push_back_all (IndexTraits_int True 4) h1 Array_default [1, 2, 3]) of
      Ok (h, a) u \<Rightarrow> Some (data a, nAllocated a) | _ \<Rightarrow> None) = Some (13, 4)"
  "(case and_then (push_back_all (IndexTraits_int True 4) empty_heap Array_default [9, 8 :: int])
           (\<lambda>(h1, b) u. push_back_all (IndexTraits_int True 4) h1 Array_default [1, 2, 3]) of
      Ok (h, a) u \<Rightarrow> Some (data a, nAllocated a) | _ \<Rightarrow> None) = Some (5, 4)"
  by code_simp+

text \<open>
  A container holding 1, 2, 3 (capacity 4): assigned the five elements 9, 8, 7, 6, 5 of
  another container it gives up its buffer for a block of five slots; assigned the two
  elements 9, 8 it keeps its buffer.
\<close>

theorem known_size_assignment_witness:
  "(case push_back_all (IndexTraits_int True 4) empty_heap Array_default [9, 8, 7, 6, 5 :: int] of
      Ok (h1, b) u \<Rightarrow>
        (case push_back_all (IndexTraits_int True 4) h1 Array_default [1, 2, 3] of
           Ok (h, a) u \<Rightarrow>
             (\<exists>h' a'. assignImpl (IndexTraits_int True 4) h a (begin_a b) (end_a b) = Ok (h', a') () \<and>
                size_a a' = 5 \<and> capacity a' = 5 \<and>
                elems h' a' = [Some 9, Some 8, Some 7, Some 6, Some 5] \<and>
                events h' = events h @
                  [Destructed (data a), Destructed (data a + 1), Destructed (data a + 2),
                   Released (data a), Allocated (data a') 5,
                   Constructed (data a'), Constructed (data a' + 1), Constructed (data a' + 2),
                   Constructed (data a' + 3), Constructed (data a' + 4)])
         | _ \<Rightarrow> False)
    | _ \<Rightarrow> False) \<and>
   (case push_back_all (IndexTraits_int True 4) empty_heap Array_default [9, 8 :: int] of
      Ok (h1, b) u \<Rightarrow>
        (case push_back_all (IndexTraits_int True 4) h1 Array_default [1, 2, 3] of
           Ok (h, a) u \<Rightarrow>
             (\<exists>h' a'. assignImpl (IndexTraits_int True 4) h a (begin_a b) (end_a b) = Ok (h', a') () \<and>
                size_a a' = 2 \<and> capacity a' = 4 \<and> data a' = data a \<and>
                elems h' a' = [Some 9, Some 8] \<and>
                events h' = events h @
                  [Destructed (data a), Destructed (data a + 1), Destructed (data a + 2),
                   Constructed (data a), Constructed (data a + 1)])
         | _ \<Rightarrow> False)
    | _ \<Rightarrow> False)"
proof -
  let ?cfg = "IndexTraits_int True 4"
  have mx: "max_size ?cfg = 2147483647" by (simp add: IndexTraits_int_def)
  have nums: "[0 ..< 2] = [0, Suc 0]" "[0 ..< 3] = [0, Suc 0, Suc (Suc 0)]"
    "[0 ..< 5] = [0, Suc 0, Suc (Suc 0), Suc (Suc (Suc 0)), Suc (Suc (Suc (Suc 0)))]"
    by (simp_all add: upt_rec numeral_2_eq_2 numeral_3_eq_3 eval_nat_numeral)
  have A: "(case push_back_all ?cfg empty_heap Array_default [9, 8, 7, 6, 5 :: int] of
      Ok (h1, b) u \<Rightarrow>
        (case push_back_all ?cfg h1 Array_default [1, 2, 3] of
           Ok (h, a) u \<Rightarrow>
             (\<exists>h' a'. assignImpl ?cfg h a (begin_a b) (end_a b) = Ok (h', a') () \<and>
                size_a a' = 5 \<and> capacity a' = 5 \<and>
                elems h' a' = [Some 9, Some 8, Some 7, Some 6, Some 5] \<and>
                events h' = events h @
                  [Destructed (data a), Destructed (data a + 1), Destructed (data a + 2),
                   Released (data a), Allocated (data a') 5,
                   Constructed (data a'), Constructed (data a' + 1), Constructed (data a' + 2),
                   Constructed (data a' + 3), Constructed (data a' + 4)])
         | _ \<Rightarrow> False)
    | _ \<Rightarrow> False)"
  proof -
    have pre: "int (length [9, 8, 7, 6, 5 :: int]) \<le> 2147483647"
      "int (length [1, 2, 3 :: int]) \<le> 2147483647" "[1, 2, 3 :: int] \<noteq> []"
      by simp_all
    from source_and_destination [OF pre, of True]
    obtain h1 b h a where s:
      "push_back_all ?cfg empty_heap Array_default [9, 8, 7, 6, 5 :: int] = Ok (h1, b) ()"
      "push_back_all ?cfg h1 Array_default [1, 2, 3 :: int] = Ok (h, a) ()"
      "array_ok ?cfg h a" "nUsed a = int (length [1, 2, 3 :: int])"
      "nUsed b = int (length [9, 8, 7, 6, 5 :: int])"
      "live_on h (begin_a b) (end_a b)" "end_a b \<le> brk h" "end_a b \<le> begin_a a"
      "map (\<lambda>i. deref h (begin_a b + int i)) [0 ..< length [9, 8, 7, 6, 5 :: int]]
         = map Some [9, 8, 7, 6, 5]"
      by blast
    from capacity_of_destination(1) s(1,2) have c: "data a = 13" "nAllocated a = 4"
      by (simp_all add: and_then_def del: push_back_all.simps)
    have m: "end_a b - begin_a b = 5" using s(5) by (simp add: begin_a_def end_a_def)
    have hyp: "begin_a b \<le> end_a b" "end_a b \<le> begin_a a \<or> end_a a \<le> begin_a b"
      "end_a b - begin_a b \<le> max_size ?cfg" "bytes_fit ?cfg (end_a b - begin_a b)"
      using m s(8) by (simp_all add: mx bytes_fit_int)
    from known_size_assignment [OF cfg_ok_int s(3) hyp(1) s(6,7) hyp(2,3,4)]
    obtain h' a' where r: "assignImpl ?cfg h a (begin_a b) (end_a b) = Ok (h', a') ()"
      "size_a a' = end_a b - begin_a b"
      "elems h' a' = map (\<lambda>i. deref h (begin_a b + int i)) [0 ..< nat (end_a b - begin_a b)]"
      "capacity a < end_a b - begin_a b \<or>
            2 * max (end_a b - begin_a b) (min 4 (max_size ?cfg)) + 1 < capacity a
              \<longrightarrow> assigned_in_new_block h a h' a'"
      by blast
    from r(4) have "assigned_in_new_block h a h' a'" using c(2) m by (simp add: capacity_def)
    then have "capacity a' = 5" "events h' = events h @
                  [Destructed (data a), Destructed (data a + 1), Destructed (data a + 2),
                   Released (data a), Allocated (data a') 5,
                   Constructed (data a'), Constructed (data a' + 1), Constructed (data a' + 2),
                   Constructed (data a' + 3), Constructed (data a' + 4)]"
      using r(2) m s(4) c(1) by (simp_all add: assigned_in_new_block_def size_a_def nums)
    moreover have "elems h' a' = [Some 9, Some 8, Some 7, Some 6, Some 5]"
      using r(3) m s(9) by (simp add: nums)
    ultimately have "\<exists>h' a'. assignImpl ?cfg h a (begin_a b) (end_a b) = Ok (h', a') () \<and>
                size_a a' = 5 \<and> capacity a' = 5 \<and>
                elems h' a' = [Some 9, Some 8, Some 7, Some 6, Some 5] \<and>
                events h' = events h @
                  [Destructed (data a), Destructed (data a + 1), Destructed (data a + 2),
                   Released (data a), Allocated (data a') 5,
                   Constructed (data a'), Constructed (data a' + 1), Constructed (data a' + 2),
                   Constructed (data a' + 3), Constructed (data a' + 4)]"
      using r(1,2) m by (intro exI [of _ h'] exI [of _ a']) simp
    then show ?thesis unfolding s(1) result.case prod.case s(2) .
  qed
  have B: "(case push_back_all ?cfg empty_heap Array_default [9, 8 :: int] of
      Ok (h1, b) u \<Rightarrow>
        (case push_back_all ?cfg h1 Array_default [1, 2, 3] of
           Ok (h, a) u \<Rightarrow>
             (\<exists>h' a'. assignImpl ?cfg h a (begin_a b) (end_a b) = Ok (h', a') () \<and>
                size_a a' = 2 \<and> capacity a' = 4 \<and> data a' = data a \<and>
                elems h' a' = [Some 9, Some 8] \<and>
                events h' = events h @
                  [Destructed (data a), Destructed (data a + 1), Destructed (data a + 2),
                   Constructed (data a), Constructed (data a + 1)])
         | _ \<Rightarrow> False)
    | _ \<Rightarrow> False)"
  proof -
    have pre: "int (length [9, 8 :: int]) \<le> 2147483647"
      "int (length [1, 2, 3 :: int]) \<le> 2147483647" "[1, 2, 3 :: int] \<noteq> []"
      by simp_all
    from source_and_destination [OF pre, of True]
    obtain h1 b h a where s:
      "push_back_all ?cfg empty_heap Array_default [9, 8 :: int] = Ok (h1, b) ()"
      "push_back_all ?cfg h1 Array_default [1, 2, 3 :: int] = Ok (h, a) ()"
      "array_ok ?cfg h a" "nUsed a = int (length [1, 2, 3 :: int])"
      "nUsed b = int (length [9, 8 :: int])"
      "live_on h (begin_a b) (end_a b)" "end_a b \<le> brk h" "end_a b \<le> begin_a a"
      "map (\<lambda>i. deref h (begin_a b + int i)) [0 ..< length [9, 8 :: int]] = map Some [9, 8]"
      by blast
    from capacity_of_destination(2) s(1,2) have c: "nAllocated a = 4"
      by (simp_all add: and_then_def del: push_back_all.simps)
    have m: "end_a b - begin_a b = 2" using s(5) by (simp add: begin_a_def end_a_def)
    have hyp: "begin_a b \<le> end_a b" "end_a b \<le> begin_a a \<or> end_a a \<le> begin_a b"
      "end_a b - begin_a b \<le> max_size ?cfg" "bytes_fit ?cfg (end_a b - begin_a b)"
      using m s(8) by (simp_all add: mx bytes_fit_int)
    from known_size_assignment [OF cfg_ok_int s(3) hyp(1) s(6,7) hyp(2,3,4)]
    obtain h' a' where r: "assignImpl ?cfg h a (begin_a b) (end_a b) = Ok (h', a') ()"
      "size_a a' = end_a b - begin_a b"
      "elems h' a' = map (\<lambda>i. deref h (begin_a b + int i)) [0 ..< nat (end_a b - begin_a b)]"
      "end_a b - begin_a b \<le> capacity a \<and>
            capacity a < 2 * max (end_a b - begin_a b) (min 4 (max_size ?cfg))
              \<longrightarrow> assigned_in_place h a h' a'"
      by blast
    from r(4) have "assigned_in_place h a h' a'" using c m by (simp add: capacity_def mx)
    then have "capacity a' = 4" "data a' = data a" "events h' = events h @
                  [Destructed (data a), Destructed (data a + 1), Destructed (data a + 2),
                   Constructed (data a), Constructed (data a + 1)]"
      using r(2) m s(4) c by (simp_all add: assigned_in_place_def size_a_def capacity_def nums)
    moreover have "elems h' a' = [Some 9, Some 8]"
      using r(3) m s(9) by (simp add: nums)
    ultimately have "\<exists>h' a'. assignImpl ?cfg h a (begin_a b) (end_a b) = Ok (h', a') () \<and>
                size_a a' = 2 \<and> capacity a' = 4 \<and> data a' = data a \<and>
                elems h' a' = [Some 9, Some 8] \<and>
                events h' = events h @
                  [Destructed (data a), Destructed (data a + 1), Destructed (data a + 2),
                   Constructed (data a), Constructed (data a + 1)]"
      using r(1,2) m by (intro exI [of _ h'] exI [of _ a']) simp
    then show ?thesis unfolding s(1) result.case prod.case s(2) .
  qed
  from A B show ?thesis ..
qed

text \<open>
  The rule of C5 as stated, "reused exactly when it fits and is not more than twice the
  need, otherwise reallocated to exactly fit", fails for small needs, where the minimum
  allocation counts as the need: a container of capacity 4 that is assigned one element
  has a capacity of more than twice the need and keeps its buffer of 4 slots.
\<close>

theorem assignment_keeps_small_buffer:
  "(case and_then (push_back_all (IndexTraits_int True 4) empty_heap Array_default [9 :: int])
          (\<lambda>(h1, b) u.
             and_then (push_back_all (IndexTraits_int True 4) h1 Array_default [1, 2, 3])
               (\<lambda>(h, a) u.
                  and_then (assignImpl (IndexTraits_int True 4) h a (begin_a b) (end_a b))
                    (\<lambda>(h', a') u. Ok (h', a') (capacity a, size_a a', capacity a', data a' = data a,
                                           elems h' a')))) of
      Ok s r \<Rightarrow> Some r | _ \<Rightarrow> None)
     = Some (4, 1, 4, True, [Some 9])"
  by code_simp

subsection \<open>Erasing in order, inserting, resizing\<close>

lemma moveOneElement_spec:
  assumes "cells h from = Some (Live v)" and "cells h to = Some Raw"
  shows "moveOneElement h to from
           = Some (h\<lparr>cells := (cells h)(to := Some (Live v), from := Some Raw),
      events := events h @ [Constructed (to), Destructed (from)]\<rparr>)"
proof -
  from assms have "from \<noteq> to" by auto
  then show ?thesis
    using assms by (simp add: moveOneElement_def deref_def construct_def destruct_def)
qed

lemma moveElementsDown_spec:
  "0 < n \<Longrightarrow> p \<le> end_a a \<Longrightarrow> live_on h p (end_a a) \<Longrightarrow> raw_on h (p - n) p \<Longrightarrow>
   \<exists>h'. moveElementsDown h a p n = Some h' \<and> blocks h' = blocks h \<and> brk h' = brk h \<and>
        (\<forall>q. cells h' q =
           (if p - n \<le> q \<and> q < end_a a - n then cells h (q + n)
            else if end_a a - n \<le> q \<and> q < end_a a then Some Raw
            else cells h q))"
proof (induction h a p n rule: moveElementsDown.induct)
  case (1 h a p n)
  let ?e = "end_a a"
  show ?case
  proof (cases "p = ?e")
    case True
    have "cells h q = Some Raw" if "?e - n \<le> q" "q < ?e" for q
      using raw_onD [OF "1.prems"(4), of q] that True by simp
    then show ?thesis using True by (subst moveElementsDown.simps) auto
  next
    case False
    with "1.prems" have lt: "p < ?e" by simp
    from live_onD [OF "1.prems"(3), of p] lt obtain v where v: "cells h p = Some (Live v)"
      by auto
    have r: "cells h (p - n) = Some Raw"
      using raw_onD [OF "1.prems"(4), of "p - n"] "1.prems"(1) by simp
    define h1 where "h1 = h\<lparr>cells := (cells h)(p - n := Some (Live v), p := Some Raw),
      events := events h @ [Constructed (p - n), Destructed (p)]\<rparr>"
    have mv: "moveOneElement h (p - n) p = Some h1"
      using moveOneElement_spec [OF v r] by (simp add: h1_def)
    have cells1: "\<And>q. cells h1 q = (if q = p then Some Raw else if q = p - n then Some (Live v)
                                     else cells h q)"
      using "1.prems"(1) by (simp add: h1_def)
    have live1: "live_on h1 (p + 1) ?e"
      unfolding live_on_def
    proof (intro allI impI)
      fix q assume q: "p + 1 \<le> q \<and> q < ?e"
      then have "\<exists>w. cells h q = Some (Live w)" by (intro live_onD [OF "1.prems"(3)]) auto
      moreover have "q \<noteq> p" "q \<noteq> p - n" using q "1.prems"(1) by auto
      ultimately show "\<exists>w. cells h1 q = Some (Live w)" by (simp add: cells1)
    qed
    have raw1: "raw_on h1 (p + 1 - n) (p + 1)"
      unfolding raw_on_def
    proof (intro allI impI)
      fix q assume q: "p + 1 - n \<le> q \<and> q < p + 1"
      show "cells h1 q = Some Raw"
      proof (cases "q = p")
        case True then show ?thesis by (simp add: cells1)
      next
        case False
        with q have "p - n \<le> q" "q < p" "q \<noteq> p - n" by auto
        then show ?thesis using raw_onD [OF "1.prems"(4), of q] False by (simp add: cells1)
      qed
    qed
    from "1.IH" [OF False _ mv "1.prems"(1) _ live1 raw1] lt
    obtain h' where h': "moveElementsDown h1 a (p + 1) n = Some h'"
      "blocks h' = blocks h1" "brk h' = brk h1"
      "\<And>q. cells h' q =
           (if p + 1 - n \<le> q \<and> q < ?e - n then cells h1 (q + n)
            else if ?e - n \<le> q \<and> q < ?e then Some Raw
            else cells h1 q)"
      by auto
    have run: "moveElementsDown h a p n = Some h'"
      using lt False h'(1) mv by (subst moveElementsDown.simps) simp
    have cells': "cells h' q =
           (if p - n \<le> q \<and> q < ?e - n then cells h (q + n)
            else if ?e - n \<le> q \<and> q < ?e then Some Raw
            else cells h q)" for q
      using lt "1.prems"(1) v by (auto simp: h'(4) cells1)
    show ?thesis using run h'(2,3) cells' by (simp add: h1_def)
  qed
qed

lemma closeGap:
  assumes cfg: "cfg_ok cfg" and ok: "array_ok cfg h a"
    and r: "begin_a a \<le> first" "first < last1" "last1 \<le> end_a a"
    and h1: "blocks h1 = blocks h" "brk h1 = brk h"
      "\<And>q. cells h1 q = (if first \<le> q \<and> q < last1 then Some Raw else cells h q)"
  shows "\<exists>h'. moveElementsDown h1 a last1 (last1 - first) = Some h' \<and>
           array_ok cfg h' (a\<lparr>nUsed := nUsed a - (last1 - first)\<rparr>) \<and>
           elems h' (a\<lparr>nUsed := nUsed a - (last1 - first)\<rparr>)
             = take (nat (first - begin_a a)) (elems h a) @ drop (nat (last1 - begin_a a)) (elems h a)"
proof -
  define k where "k = last1 - first"
  from r have rr: "data a \<le> first" "last1 \<le> data a + nUsed a" and k: "0 < k"
    by (simp_all add: begin_a_def end_a_def k_def)
  from ok have u: "0 \<le> nUsed a" "nUsed a \<le> nAllocated a"
    and live: "live_on h (data a) (data a + nUsed a)"
    and raw: "raw_on h (data a + nUsed a) (data a + nAllocated a)"
    by (simp_all add: array_ok_def)
  have l1: "live_on h1 last1 (end_a a)"
    using live rr r by (auto simp: live_on_def h1(3) end_a_def)
  have r1: "raw_on h1 (last1 - k) last1"
    by (auto simp: raw_on_def h1(3) k_def)
  from moveElementsDown_spec [OF k r(3) l1 r1]
  obtain h' where h': "moveElementsDown h1 a last1 k = Some h'"
    "blocks h' = blocks h1" "brk h' = brk h1"
    "\<And>q. cells h' q =
           (if last1 - k \<le> q \<and> q < end_a a - k then cells h1 (q + k)
            else if end_a a - k \<le> q \<and> q < end_a a then Some Raw
            else cells h1 q)"
    by auto
  let ?a' = "a\<lparr>nUsed := nUsed a - k\<rparr>"
  have new: "cells h' q = (if q < first then cells h q else cells h (q + k))"
    if "data a \<le> q" "q < data a + nUsed a - k" for q
    using that k r by (auto simp: h'(4) h1(3) end_a_def k_def)
  have live': "live_on h' (data ?a') (data ?a' + nUsed ?a')"
    unfolding live_on_def
  proof (intro allI impI)
    fix q assume q: "data ?a' \<le> q \<and> q < data ?a' + nUsed ?a'"
    then have c: "cells h' q = (if q < first then cells h q else cells h (q + k))"
      using new [of q] by simp
    have "\<exists>v. cells h q = Some (Live v)" using q k by (intro live_onD [OF live]) auto
    moreover have "\<exists>v. cells h (q + k) = Some (Live v)"
      using q k rr by (intro live_onD [OF live]) auto
    ultimately show "\<exists>v. cells h' q = Some (Live v)" by (simp add: c)
  qed
  have raw': "raw_on h' (data ?a' + nUsed ?a') (data ?a' + nAllocated ?a')"
    unfolding raw_on_def
  proof (intro allI impI)
    fix q assume q: "data ?a' + nUsed ?a' \<le> q \<and> q < data ?a' + nAllocated ?a'"
    show "cells h' q = Some Raw"
    proof (cases "q < data a + nUsed a")
      case True
      then show ?thesis using q by (simp add: h'(4) end_a_def)
    next
      case False
      then have "cells h q = Some Raw" using q by (intro raw_onD [OF raw]) auto
      then show ?thesis using False k rr by (auto simp: h'(4) h1(3) end_a_def k_def)
    qed
  qed
  have kn: "k \<le> nUsed a" using rr by (simp add: k_def)
  have ok': "array_ok cfg h' ?a'"
    using ok kn k live' raw' by (simp add: array_ok_def h'(2,3) h1(1,2))
  define i where "i = nat (first - begin_a a)"
  define j where "j = nat (last1 - begin_a a)"
  have ij: "int i = first - data a" "int j = last1 - data a" "i < j" "j \<le> nat (nUsed a)"
    using rr r by (simp_all add: i_def j_def begin_a_def)
  have jk: "int j = int i + k" using ij by (simp add: k_def)
  have el: "elems h' ?a' = take i (elems h a) @ drop j (elems h a)"
  proof (rule nth_equalityI)
    show "length (elems h' ?a') = length (take i (elems h a) @ drop j (elems h a))"
      using ij kn k jk by (simp add: length_elems min_def)
  next
    fix t assume "t < length (elems h' ?a')"
    then have t: "t < nat (nUsed a - k)" by (simp add: length_elems)
    then have tq: "data a \<le> data a + int t" "data a + int t < data a + nUsed a - k" by auto
    have lhs: "elems h' ?a' ! t = (if int t < int i then deref h (data a + int t)
                                   else deref h (data a + int t + k))"
      using t new [OF tq] ij(1) by (simp add: elems_nth deref_def)
    show "elems h' ?a' ! t = (take i (elems h a) @ drop j (elems h a)) ! t"
    proof (cases "t < i")
      case True
      then have "t < nat (nUsed a)" using ij by simp
      then show ?thesis using True lhs ij by (simp add: nth_append length_elems elems_nth)
    next
      case False
      have b: "j + (t - i) < nat (nUsed a)" using t False jk k by linarith
      have e: "data a + int (j + (t - i)) = data a + int t + k" using False jk by simp
      have il: "length (take i (elems h a)) = i" using ij by (simp add: length_elems)
      have "(take i (elems h a) @ drop j (elems h a)) ! t = drop j (elems h a) ! (t - i)"
        using False by (simp add: nth_append il del: length_take)
      also have "\<dots> = elems h a ! (j + (t - i))"
        using ij b by (intro nth_drop) (simp add: length_elems)
      also have "\<dots> = deref h (data a + int (j + (t - i)))" using b by (rule elems_nth)
      also have "\<dots> = deref h (data a + int t + k)" by (simp only: e)
      finally show ?thesis using False lhs by simp
    qed
  qed
  show ?thesis using h'(1) ok' el by (simp add: k_def i_def j_def)
qed

lemma size_type_shrunk:
  assumes "cfg_ok cfg" and "array_ok cfg h a" and "0 \<le> k" and "k \<le> nUsed a"
  shows "size_type cfg (nUsed a - k) = nUsed a - k"
proof -
  from assms(2) have "nUsed a \<le> size_max cfg" by (simp add: array_ok_def)
  then show ?thesis
    using assms(3,4) by (intro size_type_id [OF assms(1)] representable_nonneg) auto
qed

lemma erase_ok:
  assumes cfg: "cfg_ok cfg" and ok: "array_ok cfg h a"
    and p: "begin_a a \<le> p" "p < end_a a"
  shows "\<exists>h'. erase cfg h a p = Ok (h', a\<lparr>nUsed := nUsed a - 1\<rparr>) p \<and>
           array_ok cfg h' (a\<lparr>nUsed := nUsed a - 1\<rparr>) \<and>
           elems h' (a\<lparr>nUsed := nUsed a - 1\<rparr>)
             = take (nat (p - begin_a a)) (elems h a) @ drop (Suc (nat (p - begin_a a))) (elems h a)"
proof -
  from p have pr: "data a \<le> p" "p < data a + nUsed a" by (simp_all add: begin_a_def end_a_def)
  from ok have live: "live_on h (data a) (data a + nUsed a)" by (simp add: array_ok_def)
  from live_onD [OF live pr] obtain w where w: "cells h p = Some (Live w)" ..
  define h1 where "h1 = h\<lparr>cells := (cells h)(p := Some Raw), events := events h @ [Destructed (p)]\<rparr>"
  have d1: "destruct h p = Some h1" using w by (simp add: destruct_Live h1_def)
  have c1: "blocks h1 = blocks h" "brk h1 = brk h"
    "\<And>q. cells h1 q = (if p \<le> q \<and> q < p + 1 then Some Raw else cells h q)"
    by (auto simp: h1_def)
  have r: "begin_a a \<le> p" "p < p + 1" "p + 1 \<le> end_a a" using p by simp_all
  from closeGap [OF cfg ok r c1]
  obtain h' where h': "moveElementsDown h1 a (p + 1) 1 = Some h'"
    "array_ok cfg h' (a\<lparr>nUsed := nUsed a - 1\<rparr>)"
    "elems h' (a\<lparr>nUsed := nUsed a - 1\<rparr>)
       = take (nat (p - begin_a a)) (elems h a) @ drop (nat (p + 1 - begin_a a)) (elems h a)"
    by auto
  have "nat (p + 1 - begin_a a) = Suc (nat (p - begin_a a))" using p(1) by simp
  moreover have "size_type cfg (nUsed a - 1) = nUsed a - 1"
    using size_type_shrunk [OF cfg ok, of 1] pr by simp
  moreover have "\<not> errchk_fails cfg (begin_a a \<le> p \<and> p < end_a a)"
    using p by (simp add: errchk_fails_def)
  ultimately show ?thesis using d1 h' by (simp add: erase_def of_option_def)
qed

lemma erase_range_ok:
  assumes cfg: "cfg_ok cfg" and ok: "array_ok cfg h a"
    and r: "begin_a a \<le> first" "first \<le> last1" "last1 \<le> end_a a"
  shows "\<exists>h'. erase_range cfg h a first last1
                 = Ok (h', a\<lparr>nUsed := nUsed a - (last1 - first)\<rparr>) first \<and>
           array_ok cfg h' (a\<lparr>nUsed := nUsed a - (last1 - first)\<rparr>) \<and>
           elems h' (a\<lparr>nUsed := nUsed a - (last1 - first)\<rparr>)
             = take (nat (first - begin_a a)) (elems h a) @ drop (nat (last1 - begin_a a)) (elems h a)"
proof -
  from r have rr: "data a \<le> first" "last1 \<le> data a + nUsed a"
    by (simp_all add: begin_a_def end_a_def)
  from ok have live: "live_on h (data a) (data a + nUsed a)" by (simp add: array_ok_def)
  have chk: "\<not> errchk_fails cfg (begin_a a \<le> first \<and> first \<le> last1 \<and> last1 \<le> end_a a)"
    using r by (simp add: errchk_fails_def)
  have "nUsed a \<le> size_max cfg" using ok by (simp add: array_ok_def)
  then have st: "size_type cfg (last1 - first) = last1 - first"
    using r rr by (intro size_type_id [OF cfg] representable_nonneg) auto
  show ?thesis
  proof (cases "first = last1")
    case True
    have "a\<lparr>nUsed := nUsed a\<rparr> = a" by simp
    moreover have "take (nat (first - begin_a a)) (elems h a) @ drop (nat (first - begin_a a)) (elems h a)
                     = elems h a" by simp
    ultimately show ?thesis using True chk st ok by (simp add: erase_range_def)
  next
    case False
    with r have lt: "first < last1" by simp
    have l: "live_on h first last1" using live rr by (auto simp: live_on_def)
    from destruct_range_spec [OF r(2) l]
    obtain h1 where h1: "destruct_range h first last1 = Some h1"
      "blocks h1 = blocks h" "brk h1 = brk h"
      "\<And>q. cells h1 q = (if first \<le> q \<and> q < last1 then Some Raw else cells h q)"
      by auto
    from closeGap [OF cfg ok r(1) lt r(3) h1(2,3,4)]
    obtain h' where h': "moveElementsDown h1 a last1 (last1 - first) = Some h'"
      "array_ok cfg h' (a\<lparr>nUsed := nUsed a - (last1 - first)\<rparr>)"
      "elems h' (a\<lparr>nUsed := nUsed a - (last1 - first)\<rparr>)
         = take (nat (first - begin_a a)) (elems h a) @ drop (nat (last1 - begin_a a)) (elems h a)"
      by auto
    have "size_type cfg (nUsed a - (last1 - first)) = nUsed a - (last1 - first)"
      using size_type_shrunk [OF cfg ok, of "last1 - first"] r rr by simp
    then show ?thesis using chk st lt h1(1) h' by (simp add: erase_range_def of_option_def)
  qed
qed

lemma clear_ok:
  assumes ok: "array_ok cfg h a"
  shows "\<exists>h'. clear h a = Some (h', a\<lparr>nUsed := 0\<rparr>) \<and> array_ok cfg h' (a\<lparr>nUsed := 0\<rparr>) \<and>
           elems h' (a\<lparr>nUsed := 0\<rparr>) = []"
proof -
  from ok have u: "0 \<le> nUsed a" "nUsed a \<le> nAllocated a"
    and live: "live_on h (data a) (data a + nUsed a)"
    and raw: "raw_on h (data a + nUsed a) (data a + nAllocated a)"
    by (simp_all add: array_ok_def)
  from destruct_range_spec [OF _ live] u
  obtain h1 where h1: "destruct_range h (data a) (data a + nUsed a) = Some h1"
    "blocks h1 = blocks h" "brk h1 = brk h"
    "\<And>q. cells h1 q = (if data a \<le> q \<and> q < data a + nUsed a then Some Raw else cells h q)"
    by auto
  have "raw_on h1 (data a) (data a + nAllocated a)"
    using raw by (auto simp: raw_on_def h1(4))
  moreover have "live_on h1 (data a) (data a + 0)" by (auto simp: live_on_def)
  ultimately have "array_ok cfg h1 (a\<lparr>nUsed := 0\<rparr>)"
    using ok u by (simp add: array_ok_def h1(2,3))
  then show ?thesis using h1(1) by (simp add: clear_def begin_a_def end_a_def elems_def)
qed

lemma fillConstruct_spec:
  "b \<le> e \<Longrightarrow> raw_on h b e \<Longrightarrow>
   \<exists>h'. fillConstruct h b e v = Some h' \<and> blocks h' = blocks h \<and> brk h' = brk h \<and>
        (\<forall>q. cells h' q = (if b \<le> q \<and> q < e then Some (Live v) else cells h q))"
proof (induction h b e v rule: fillConstruct.induct)
  case (1 h b e v)
  show ?case
  proof (cases "b = e")
    case True
    then show ?thesis by (subst fillConstruct.simps) auto
  next
    case False
    with "1.prems" have lt: "b < e" by simp
    from "1.prems"(2) lt have r: "cells h b = Some Raw" by (simp add: raw_on_def)
    define h1 where "h1 = h\<lparr>cells := (cells h)(b := Some (Live v)), events := events h @ [Constructed (b)]\<rparr>"
    have c1: "construct h b v = Some h1" using r by (simp add: construct_Raw h1_def)
    have raw1: "raw_on h1 (b + 1) e"
      using "1.prems"(2) by (auto simp: raw_on_def h1_def)
    from "1.IH" [OF False _ c1 _ raw1] lt
    obtain h' where h': "fillConstruct h1 (b + 1) e v = Some h'"
      "blocks h' = blocks h1" "brk h' = brk h1"
      "\<And>q. cells h' q = (if b + 1 \<le> q \<and> q < e then Some (Live v) else cells h1 q)"
      by auto
    have run: "fillConstruct h b e v = Some h'"
      using lt False h'(1) c1 by (subst fillConstruct.simps) simp
    have "cells h' q = (if b \<le> q \<and> q < e then Some (Live v) else cells h q)" for q
      using lt by (auto simp: h'(4) h1_def)
    then show ?thesis using run h'(2,3) by (simp add: h1_def)
  qed
qed

lemma moveElementsUp_from_spec:
  "0 < n \<Longrightarrow> p \<le> src \<Longrightarrow> live_on h p src \<Longrightarrow> raw_on h src (src + n) \<Longrightarrow>
   \<exists>h'. moveElementsUp_from h src p n = Some h' \<and> blocks h' = blocks h \<and> brk h' = brk h \<and>
        (\<forall>q. cells h' q =
           (if p + n \<le> q \<and> q < src + n then cells h (q - n)
            else if p \<le> q \<and> q < p + n then Some Raw
            else cells h q))"
proof (induction h src p n rule: moveElementsUp_from.induct)
  case (1 h src p n)
  show ?case
  proof (cases "src = p")
    case True
    have "cells h q = Some Raw" if "p \<le> q" "q < p + n" for q
      using raw_onD [OF "1.prems"(4), of q] that True by simp
    then show ?thesis using True by (subst moveElementsUp_from.simps) auto
  next
    case False
    with "1.prems" have lt: "p < src" by simp
    from live_onD [OF "1.prems"(3), of "src - 1"] lt
    obtain v where v: "cells h (src - 1) = Some (Live v)" by auto
    have r: "cells h (src - 1 + n) = Some Raw"
      using raw_onD [OF "1.prems"(4), of "src - 1 + n"] "1.prems"(1) by simp
    define h1 where "h1 = h\<lparr>cells := (cells h)(src - 1 + n := Some (Live v), src - 1 := Some Raw),
      events := events h @ [Constructed (src - 1 + n), Destructed (src - 1)]\<rparr>"
    have mv: "moveOneElement h (src - 1 + n) (src - 1) = Some h1"
      using moveOneElement_spec [OF v r] by (simp add: h1_def)
    have cells1: "\<And>q. cells h1 q = (if q = src - 1 then Some Raw
                                     else if q = src - 1 + n then Some (Live v)
                                     else cells h q)"
      using "1.prems"(1) by (simp add: h1_def)
    have live1: "live_on h1 p (src - 1)"
      unfolding live_on_def
    proof (intro allI impI)
      fix q assume q: "p \<le> q \<and> q < src - 1"
      then have "\<exists>w. cells h q = Some (Live w)" by (intro live_onD [OF "1.prems"(3)]) auto
      moreover have "q \<noteq> src - 1" "q \<noteq> src - 1 + n" using q "1.prems"(1) by auto
      ultimately show "\<exists>w. cells h1 q = Some (Live w)" by (simp add: cells1)
    qed
    have raw1: "raw_on h1 (src - 1) (src - 1 + n)"
      unfolding raw_on_def
    proof (intro allI impI)
      fix q assume q: "src - 1 \<le> q \<and> q < src - 1 + n"
      show "cells h1 q = Some Raw"
      proof (cases "q = src - 1")
        case True then show ?thesis by (simp add: cells1)
      next
        case False
        with q have "src \<le> q" "q < src + n" "q \<noteq> src - 1 + n" by auto
        then show ?thesis using raw_onD [OF "1.prems"(4), of q] False by (simp add: cells1)
      qed
    qed
    from "1.IH" [OF False _ mv "1.prems"(1) _ live1 raw1] lt
    obtain h' where h': "moveElementsUp_from h1 (src - 1) p n = Some h'"
      "blocks h' = blocks h1" "brk h' = brk h1"
      "\<And>q. cells h' q =
           (if p + n \<le> q \<and> q < src - 1 + n then cells h1 (q - n)
            else if p \<le> q \<and> q < p + n then Some Raw
            else cells h1 q)"
      by auto
    have run: "moveElementsUp_from h src p n = Some h'"
      using lt False h'(1) mv by (subst moveElementsUp_from.simps) simp
    have cells': "cells h' q =
           (if p + n \<le> q \<and> q < src + n then cells h (q - n)
            else if p \<le> q \<and> q < p + n then Some Raw
            else cells h q)" for q
      using lt "1.prems"(1) v by (auto simp: h'(4) cells1)
    show ?thesis using run h'(2,3) cells' by (simp add: h1_def)
  qed
qed

lemma gappedI:
  assumes "0 \<le> nUsed a" "0 < n" "nUsed a + n \<le> nAllocated a" "nAllocated a \<le> size_max cfg"
    "0 < brk h" "0 < data a" "data a + nAllocated a \<le> brk h"
    "blocks h (data a) = Some (nAllocated a)"
    "data a \<le> g" "g \<le> data a + nUsed a"
    "live_on h (data a) g" "raw_on h g (g + n)" "live_on h (g + n) (data a + nUsed a + n)"
    "raw_on h (data a + nUsed a + n) (data a + nAllocated a)"
    "length xs = nat (nUsed a)"
    "\<And>t. 0 \<le> t \<and> t < nUsed a \<Longrightarrow>
          xs ! nat t = deref h (if data a + t < g then data a + t else data a + t + n)"
  shows "gapped cfg h a g n xs"
  unfolding gapped_def using assms by blast

lemma promoted_id: "cfg_ok cfg \<Longrightarrow> representable cfg v \<Longrightarrow> promoted cfg v = v"
  by (simp add: promoted_def size_type_id)

lemma insertGapAt_spec:
  assumes cfg: "cfg_ok cfg" and ok: "array_ok cfg h a"
    and p: "begin_a a \<le> p" "p \<le> end_a a" and n: "0 < n" "nUsed a + n \<le> size_max cfg"
    and fits: "nUsed a + n \<le> nAllocated a \<or> nAllocated a + n \<le> max_size cfg"
    and bf: "bytes_fit cfg (max_size cfg)"
  shows "\<exists>h' a'. insertGapAt cfg h a p n = Ok (h', a') (data a' + (p - data a)) \<and>
           gapped cfg h' a' (data a' + (p - data a)) n (elems h a) \<and> nUsed a' = nUsed a \<and>
           (nAllocated a \<le> max_size cfg \<longrightarrow> nAllocated a' \<le> max_size cfg)"
proof -
  from p have pr: "data a \<le> p" "p \<le> data a + nUsed a" by (simp_all add: begin_a_def end_a_def)
  from ok have u: "0 \<le> nUsed a" "nUsed a \<le> nAllocated a" "nAllocated a \<le> size_max cfg"
    and bp: "0 < brk h"
    and live: "live_on h (data a) (data a + nUsed a)"
    and raw: "raw_on h (data a + nUsed a) (data a + nAllocated a)"
    by (simp_all add: array_ok_def)
  from ok have blk: "nAllocated a \<noteq> 0 \<Longrightarrow>
      0 < data a \<and> data a + nAllocated a \<le> brk h \<and> blocks h (data a) = Some (nAllocated a)"
    and nul: "nAllocated a = 0 \<Longrightarrow> data a = 0"
    by (simp_all add: array_ok_def split: if_splits)
  define i where "i = p - data a"
  have i: "0 \<le> i" "i \<le> nUsed a" "p = data a + i" using pr by (simp_all add: i_def)
  have chk: "\<not> errchk_fails cfg (begin_a a \<le> p \<and> p \<le> end_a a)"
    using p by (simp add: errchk_fails_def)
  have n0: "n \<noteq> 0" using n by simp
  have sb: "size_type cfg (p - begin_a a) = i"
    using i u by (simp add: begin_a_def size_type_id [OF cfg] representable_nonneg)
  have sa: "size_type cfg (end_a a - p) = nUsed a - i"
    using i u by (simp add: end_a_def size_type_id [OF cfg] representable_nonneg)
  have pm: "promoted cfg (size_a a + n) = nUsed a + n"
    using u n by (simp add: size_a_def promoted_id [OF cfg] representable_nonneg)
  have len: "length (elems h a) = nat (nUsed a)" by (rule length_elems)
  show ?thesis
  proof (cases "nUsed a + n \<le> nAllocated a")
    case True
    then have cap: "capacity a \<ge> promoted cfg (size_a a + n)" by (simp add: pm capacity_def)
    have npos: "nAllocated a \<noteq> 0" using True u n by auto
    note b = blk [OF npos]
    have l: "live_on h p (end_a a)" using live pr by (auto simp: live_on_def end_a_def)
    have r: "raw_on h (end_a a) (end_a a + n)"
      using raw True by (auto simp: raw_on_def end_a_def)
    from moveElementsUp_from_spec [OF n(1) p(2) l r]
    obtain h' where h': "moveElementsUp_from h (end_a a) p n = Some h'"
      "blocks h' = blocks h" "brk h' = brk h"
      "\<And>q. cells h' q =
           (if p + n \<le> q \<and> q < end_a a + n then cells h (q - n)
            else if p \<le> q \<and> q < p + n then Some Raw
            else cells h q)"
      by auto
    have run: "insertGapAt cfg h a p n = Ok (h', a) p"
      using chk n0 cap h'(1) by (simp add: insertGapAt_def moveElementsUp_def of_option_def Let_def)
    have g1: "live_on h' (data a) p"
      using live pr n by (auto simp: live_on_def h'(4))
    have g2: "raw_on h' p (p + n)" by (auto simp: raw_on_def h'(4))
    have g3: "live_on h' (p + n) (data a + nUsed a + n)"
      unfolding live_on_def
    proof (intro allI impI)
      fix q assume q: "p + n \<le> q \<and> q < data a + nUsed a + n"
      then have "cells h' q = cells h (q - n)" by (simp add: h'(4) end_a_def)
      moreover have "\<exists>v. cells h (q - n) = Some (Live v)"
        using q pr by (intro live_onD [OF live]) auto
      ultimately show "\<exists>v. cells h' q = Some (Live v)" by simp
    qed
    have g4: "raw_on h' (data a + nUsed a + n) (data a + nAllocated a)"
      using raw n pr by (auto simp: raw_on_def h'(4) end_a_def)
    have g5: "elems h a ! nat t = deref h' (if data a + t < p then data a + t else data a + t + n)"
      if "0 \<le> t \<and> t < nUsed a" for t
    proof -
      have "elems h a ! nat t = deref h (data a + t)" using that by (simp add: elems_nth)
      also have "\<dots> = deref h' (if data a + t < p then data a + t else data a + t + n)"
        using that n by (auto simp: deref_def h'(4) end_a_def)
      finally show ?thesis .
    qed
    have "gapped cfg h' a p n (elems h a)"
    proof (rule gappedI)
      show "\<And>t. 0 \<le> t \<and> t < nUsed a \<Longrightarrow>
          elems h a ! nat t = deref h' (if data a + t < p then data a + t else data a + t + n)"
        by (rule g5)
    qed (use u n True b bp pr g1 g2 g3 g4 len in \<open>simp_all add: h'(2,3)\<close>)
    then show ?thesis using run by simp
  next
    case False
    with fits have grow: "nAllocated a + n \<le> max_size cfg" by simp
    from False have cap: "\<not> capacity a \<ge> promoted cfg (size_a a + n)"
      by (simp add: pm capacity_def)
    define c where "c = max (max (nAllocated a + n) (min (2 * nAllocated a) (max_size cfg)))
                               (min 4 (max_size cfg))"
    from cfg have m: "max_size cfg \<le> size_max cfg" "max_size cfg < 2 ^ 63"
      by (simp_all add: cfg_ok_def)
    have calc: "calcNewCapacityForGrowthBy cfg a n = Inr c"
      using calcNewCapacityForGrowthBy_eq [OF cfg, of a n] u n grow m
      by (simp add: capacity_def c_def)
    have cb: "nAllocated a + n \<le> c" "c \<le> max_size cfg" using grow by (auto simp: c_def)
    then have cpos: "0 < c" and cle: "c \<le> size_max cfg" using n u m by auto
    have below: "data a + nUsed a \<le> brk h"
      using blk nul u bp by (cases "nAllocated a = 0") auto
    have old_below: "data a + nAllocated a \<le> brk h"
      using blk nul bp by (cases "nAllocated a = 0") auto
    let ?nd = "brk h"
    define h1 where "h1 = h\<lparr>cells := (\<lambda>q. if brk h \<le> q \<and> q < brk h + c then Some Raw else cells h q),
                   blocks := (blocks h)(brk h := Some c), brk := brk h + c,
                   events := events h @ [Allocated (brk h) c]\<rparr>"
    from bf cb(2) have bfc: "bytes_fit cfg c" by (rule bytes_fit_mono)
    have a1: "allocN cfg h c = Some (h1, ?nd)" using allocN_fits [OF cpos bfc] by (simp add: h1_def)
    have cells1: "\<And>q. cells h1 q = (if brk h \<le> q \<and> q < brk h + c then Some Raw else cells h q)"
      by (simp add: h1_def)
    have l1: "live_on h1 (data a) (data a + (?nd + i - ?nd))"
      using live i below by (auto simp: live_on_def cells1)
    have r1: "raw_on h1 ?nd (?nd + i)"
      using i u cb n by (auto simp: raw_on_def cells1)
    from copyConstructThenDestructSource_spec [OF _ l1 r1] i
    obtain h2 where h2: "copyConstructThenDestructSource h1 ?nd (?nd + i) (data a) = Some h2"
      "blocks h2 = blocks h1" "brk h2 = brk h1"
      "\<And>q. cells h2 q =
           (if ?nd \<le> q \<and> q < ?nd + i then cells h1 (data a + (q - ?nd))
            else if data a \<le> q \<and> q < data a + (?nd + i - ?nd) then Some Raw
            else cells h1 q)"
      by auto
    let ?b2 = "?nd + i + n"
    let ?e2 = "?nd + i + n + (nUsed a - i)"
    have l2: "live_on h2 p (p + (?e2 - ?b2))"
      unfolding live_on_def
    proof (intro allI impI)
      fix q assume q: "p \<le> q \<and> q < p + (?e2 - ?b2)"
      then have qq: "data a + i \<le> q" "q < data a + nUsed a" using i by auto
      then have "cells h2 q = cells h q" using below by (simp add: h2(4) cells1)
      moreover have "\<exists>v. cells h q = Some (Live v)"
        using qq i by (intro live_onD [OF live]) auto
      ultimately show "\<exists>v. cells h2 q = Some (Live v)" by simp
    qed
    have r2: "raw_on h2 ?b2 ?e2"
      unfolding raw_on_def
    proof (intro allI impI)
      fix q assume q: "?b2 \<le> q \<and> q < ?e2"
      then have "brk h \<le> q" "q < brk h + c" "\<not> q < brk h + i" using i n u cb by auto
      moreover have "\<not> (data a \<le> q \<and> q < data a + i)" using q below i n by auto
      ultimately show "cells h2 q = Some Raw" by (simp add: h2(4) cells1)
    qed
    from copyConstructThenDestructSource_spec [OF _ l2 r2] i
    obtain h3 where h3: "copyConstructThenDestructSource h2 ?b2 ?e2 p = Some h3"
      "blocks h3 = blocks h2" "brk h3 = brk h2"
      "\<And>q. cells h3 q =
           (if ?b2 \<le> q \<and> q < ?e2 then cells h2 (p + (q - ?b2))
            else if p \<le> q \<and> q < p + (?e2 - ?b2) then Some Raw
            else cells h2 q)"
      by auto
    define h4 where "h4 = (if data a = 0 then h3 else
        h3\<lparr>cells := (\<lambda>q. if data a \<le> q \<and> q < data a + nAllocated a then None else cells h3 q),
           blocks := (blocks h3)(data a := None), events := events h3 @ [Released (data a)]\<rparr>)"
    have ne: "data a \<noteq> brk h"
      using blk nul bp u by (cases "nAllocated a = 0") auto
    have f4: "freeN h3 (data a) = Some h4"
    proof (cases "nAllocated a = 0")
      case True then show ?thesis using nul by (simp add: freeN_def h4_def)
    next
      case False
      with blk have "0 < data a" "blocks h (data a) = Some (nAllocated a)" by auto
      then show ?thesis using ne by (simp add: freeN_def h4_def h3(2) h2(2) h1_def)
    qed
    have d0: "data a = 0 \<Longrightarrow> nAllocated a = 0" using blk by auto
    have cells4: "cells h4 q =
        (if data a \<le> q \<and> q < data a + nAllocated a then None else cells h3 q)" for q
      using d0 by (auto simp: h4_def)
    let ?a' = "a\<lparr>nAllocated := c, data := ?nd\<rparr>"
    have run: "insertGapAt cfg h a p n = Ok (h4, ?a') (?nd + i)"
      using chk n0 cap calc sb sa a1 h2(1) h3(1) f4 i(3)
      by (simp add: insertGapAt_def of_option_def Let_def)
    \<comment> \<open>the new block, slot by slot\<close>
    have new: "cells h4 q =
        (if q < ?nd + i then cells h (data a + (q - ?nd))
         else if q < ?nd + i + n then Some Raw
         else if q < ?nd + nUsed a + n then cells h (data a + (q - ?nd - n))
         else Some Raw)"
      if "?nd \<le> q" "q < ?nd + c" for q
    proof -
      have o: "\<not> (data a \<le> q \<and> q < data a + nAllocated a)" using that old_below by auto
      have o2: "\<not> (p \<le> q \<and> q < p + (?e2 - ?b2))" using that below i by auto
      have o3: "\<not> (data a \<le> q \<and> q < data a + (?nd + i - ?nd))" using that below i by auto
      show ?thesis
      proof (cases "?b2 \<le> q \<and> q < ?e2")
        case True
        let ?s = "p + (q - ?b2)"
        have s: "data a + i \<le> ?s" "?s < data a + nUsed a" using True i by auto
        have e: "?s = data a + (q - ?nd - n)" using i by simp
        have "cells h4 q = cells h3 q" using o by (auto simp: cells4)
        also have "\<dots> = cells h2 ?s" using True by (simp add: h3(4))
        also have "\<dots> = cells h ?s" using s below by (simp add: h2(4) cells1)
        also have "\<dots> = cells h (data a + (q - ?nd - n))" by (simp only: e)
        finally have "cells h4 q = cells h (data a + (q - ?nd - n))" .
        moreover have "\<not> q < ?nd + i" "\<not> q < ?nd + i + n" "q < ?nd + nUsed a + n"
          using True i n by auto
        ultimately show ?thesis by simp
      next
        case False
        then show ?thesis using that o o2 o3 i n below
          by (auto simp: cells4 h3(4) h2(4) cells1)
      qed
    qed
    have g1: "live_on h4 ?nd (?nd + i)"
      unfolding live_on_def
    proof (intro allI impI)
      fix q assume q: "?nd \<le> q \<and> q < ?nd + i"
      then have "cells h4 q = cells h (data a + (q - ?nd))" using new [of q] i u cb n by simp
      moreover have "\<exists>v. cells h (data a + (q - ?nd)) = Some (Live v)"
        using q i by (intro live_onD [OF live]) auto
      ultimately show "\<exists>v. cells h4 q = Some (Live v)" by simp
    qed
    have g2: "raw_on h4 (?nd + i) (?nd + i + n)"
      using new i u cb n by (auto simp: raw_on_def)
    have g3: "live_on h4 (?nd + i + n) (?nd + nUsed a + n)"
      unfolding live_on_def
    proof (intro allI impI)
      fix q assume q: "?nd + i + n \<le> q \<and> q < ?nd + nUsed a + n"
      then have "cells h4 q = cells h (data a + (q - ?nd - n))"
        using new [of q] i u cb n by simp
      moreover have "\<exists>v. cells h (data a + (q - ?nd - n)) = Some (Live v)"
        using q i by (intro live_onD [OF live]) auto
      ultimately show "\<exists>v. cells h4 q = Some (Live v)" by simp
    qed
    have g4: "raw_on h4 (?nd + nUsed a + n) (?nd + c)"
      using new i u cb n by (auto simp: raw_on_def)
    have g5: "elems h a ! nat t = deref h4 (if ?nd + t < ?nd + i then ?nd + t else ?nd + t + n)"
      if "0 \<le> t \<and> t < nUsed a" for t
    proof -
      have "elems h a ! nat t = deref h (data a + t)" using that by (simp add: elems_nth)
      also have "\<dots> = deref h4 (if ?nd + t < ?nd + i then ?nd + t else ?nd + t + n)"
        using that new [of "?nd + t"] new [of "?nd + t + n"] i u cb n
        by (auto simp: deref_def)
      finally show ?thesis .
    qed
    have blocks4: "blocks h4 ?nd = Some c"
      using ne by (simp add: h4_def h3(2) h2(2) h1_def)
    have brk4: "brk h4 = brk h + c" by (simp add: h4_def h3(3) h2(3) h1_def)
    have "gapped cfg h4 ?a' (?nd + i) n (elems h a)"
    proof (rule gappedI)
      fix t assume t: "0 \<le> t \<and> t < nUsed ?a'"
      then have "0 \<le> t \<and> t < nUsed a" by simp
      from g5 [OF this]
      show "elems h a ! nat t
              = deref h4 (if data ?a' + t < ?nd + i then data ?a' + t else data ?a' + t + n)"
        by simp
    qed (use u n cb cle bp i g1 g2 g3 g4 len blocks4 brk4 in simp_all)
    moreover have "p - data a = i" by (simp add: i_def)
    ultimately show ?thesis using run cb by simp
  qed
qed

lemma fill_gap:
  assumes g: "gapped cfg h a g n xs"
    and h': "blocks h' = blocks h" "brk h' = brk h"
      "\<And>q. cells h' q = (if g \<le> q \<and> q < g + n then Some (Live (f (q - g))) else cells h q)"
  shows "array_ok cfg h' (a\<lparr>nUsed := nUsed a + n\<rparr>) \<and>
         elems h' (a\<lparr>nUsed := nUsed a + n\<rparr>)
           = take (nat (g - data a)) xs @ map (\<lambda>t. Some (f (int t))) [0 ..< nat n]
               @ drop (nat (g - data a)) xs"
proof -
  from g have u: "0 \<le> nUsed a" "0 < n" "nUsed a + n \<le> nAllocated a" "nAllocated a \<le> size_max cfg"
    "0 < brk h" "0 < data a" "data a + nAllocated a \<le> brk h"
    "blocks h (data a) = Some (nAllocated a)" "data a \<le> g" "g \<le> data a + nUsed a"
    and l1: "live_on h (data a) g" and l2: "live_on h (g + n) (data a + nUsed a + n)"
    and r2: "raw_on h (data a + nUsed a + n) (data a + nAllocated a)"
    and len: "length xs = nat (nUsed a)"
    and xs: "\<And>t. 0 \<le> t \<and> t < nUsed a \<Longrightarrow>
          xs ! nat t = deref h (if data a + t < g then data a + t else data a + t + n)"
    by (simp_all add: gapped_def)
  let ?a' = "a\<lparr>nUsed := nUsed a + n\<rparr>"
  have live': "live_on h' (data a) (data a + (nUsed a + n))"
    unfolding live_on_def
  proof (intro allI impI)
    fix q assume q: "data a \<le> q \<and> q < data a + (nUsed a + n)"
    show "\<exists>v. cells h' q = Some (Live v)"
    proof (cases "g \<le> q \<and> q < g + n")
      case True then show ?thesis by (simp add: h'(3))
    next
      case False
      then have "cells h' q = cells h q" by (auto simp: h'(3))
      moreover have "\<exists>v. cells h q = Some (Live v)"
      proof (cases "q < g")
        case True then show ?thesis using q by (intro live_onD [OF l1]) auto
      next
        case ge: False
        with False q show ?thesis by (intro live_onD [OF l2]) auto
      qed
      ultimately show ?thesis by simp
    qed
  qed
  have raw': "raw_on h' (data a + (nUsed a + n)) (data a + nAllocated a)"
    using r2 u by (auto simp: raw_on_def h'(3))
  have ok': "array_ok cfg h' ?a'"
    using u live' raw' by (simp add: array_ok_def h'(1,2))
  define i where "i = nat (g - data a)"
  define m where "m = nat n"
  have i: "int i = g - data a" "i \<le> nat (nUsed a)" and m: "int m = n" "0 < m"
    using u by (simp_all add: i_def m_def)
  let ?ys = "map (\<lambda>t. Some (f (int t))) [0 ..< m]"
  have el: "elems h' ?a' = take i xs @ ?ys @ drop i xs"
  proof (rule nth_equalityI)
    show "length (elems h' ?a') = length (take i xs @ ?ys @ drop i xs)"
      using u i m len by (simp add: length_elems min_def nat_add_distrib)
  next
    fix t assume "t < length (elems h' ?a')"
    then have t: "int t < nUsed a + n" by (simp add: length_elems)
    then have tn: "t < nat (nUsed ?a')" by simp
    have lt: "length (take i xs) = i" using i len by simp
    have lhs: "elems h' ?a' ! t = deref h' (data a + int t)"
      using elems_nth [OF tn] by simp
    show "elems h' ?a' ! t = (take i xs @ ?ys @ drop i xs) ! t"
    proof (cases "t < i")
      case True
      then have q: "data a + int t < g" using i by simp
      have "0 \<le> int t \<and> int t < nUsed a" using True i by simp
      from xs [OF this] q have "xs ! t = deref h (data a + int t)" by simp
      moreover have "deref h' (data a + int t) = deref h (data a + int t)"
        using q by (auto simp: deref_def h'(3))
      moreover have "(take i xs @ ?ys @ drop i xs) ! t = xs ! t"
        using True by (simp add: nth_append lt del: length_take)
      ultimately show ?thesis using lhs by simp
    next
      case False
      show ?thesis
      proof (cases "t < i + m")
        case True
        have q: "g \<le> data a + int t" "data a + int t < g + n" using False True i m by auto
        have e: "data a + int t - g = int (t - i)" using False i by simp
        have "deref h' (data a + int t) = Some (f (int (t - i)))"
          using q e by (simp add: deref_def h'(3))
        moreover have tm: "t - i < m" using False True by arith
        moreover have "(take i xs @ ?ys @ drop i xs) ! t = ?ys ! (t - i)"
          using False tm by (simp add: nth_append lt del: length_take)
        moreover have "?ys ! (t - i) = Some (f (int (t - i)))"
          using tm by simp
        ultimately show ?thesis using lhs by simp
      next
        case ge: False
        have q: "\<not> (g \<le> data a + int t \<and> data a + int t < g + n)" using ge i m by auto
        have k: "0 \<le> int (t - m) \<and> int (t - m) < nUsed a" using ge t m by auto
        have k2: "\<not> data a + int (t - m) < g" using ge i m by auto
        have e: "data a + int (t - m) + n = data a + int t" using ge m by auto
        from xs [OF k] k2 e have "xs ! (t - m) = deref h (data a + int t)" by simp
        moreover have "deref h' (data a + int t) = deref h (data a + int t)"
          using q by (auto simp: deref_def h'(3))
        moreover have "\<not> t - i < m" using False ge by arith
        moreover have "(take i xs @ ?ys @ drop i xs) ! t = drop i xs ! (t - i - m)"
          using False \<open>\<not> t - i < m\<close> by (simp add: nth_append lt del: length_take)
        moreover have "drop i xs ! (t - i - m) = xs ! (i + (t - i - m))"
          using i len k ge by (intro nth_drop) simp
        moreover have "i + (t - i - m) = t - m" using ge by simp
        ultimately show ?thesis using lhs by simp
      qed
    qed
  qed
  show ?thesis using ok' el by (simp add: i_def m_def)
qed

lemma fillConstruct_empty [simp]: "fillConstruct h b b v = Some h"
  by (subst fillConstruct.simps) simp

lemma insert_n_ok:
  assumes cfg: "cfg_ok cfg" and ok: "array_ok cfg h a"
    and p: "begin_a a \<le> p" "p \<le> end_a a" and n: "0 \<le> n" "nUsed a + n \<le> size_max cfg"
    and fits: "nUsed a + n \<le> nAllocated a \<or> nAllocated a + n \<le> max_size cfg"
    and bf: "bytes_fit cfg (max_size cfg)"
  shows "\<exists>h' a'. insert_n cfg h a p n v = Ok (h', a') (data a' + (p - data a)) \<and>
           array_ok cfg h' a' \<and> nUsed a' = nUsed a + n \<and>
           elems h' a' = take (nat (p - begin_a a)) (elems h a) @ replicate (nat n) (Some v)
                           @ drop (nat (p - begin_a a)) (elems h a) \<and>
           (nAllocated a \<le> max_size cfg \<longrightarrow> nAllocated a' \<le> max_size cfg)"
proof (cases "n = 0")
  case True
  have "\<not> errchk_fails cfg (begin_a a \<le> p \<and> p \<le> end_a a)"
    using p by (simp add: errchk_fails_def)
  then have g: "insertGapAt cfg h a p 0 = Ok (h, a) p" by (simp add: insertGapAt_def)
  have "nUsed a \<le> size_max cfg" "0 \<le> nUsed a" using ok by (simp_all add: array_ok_def)
  then have st: "size_type cfg (nUsed a) = nUsed a"
    by (intro size_type_id [OF cfg] representable_nonneg)
  have "a\<lparr>nUsed := nUsed a\<rparr> = a" by simp
  then have "insert_n cfg h a p 0 v = Ok (h, a) p"
    using g st by (simp add: insert_n_def and_then_def of_option_def)
  then show ?thesis using True ok by simp
next
  case False
  with n have npos: "0 < n" by simp
  from insertGapAt_spec [OF cfg ok p npos n(2) fits bf]
  obtain h1 a1 where g: "insertGapAt cfg h a p n = Ok (h1, a1) (data a1 + (p - data a))"
    "gapped cfg h1 a1 (data a1 + (p - data a)) n (elems h a)" "nUsed a1 = nUsed a"
    "nAllocated a \<le> max_size cfg \<longrightarrow> nAllocated a1 \<le> max_size cfg"
    by blast
  let ?g = "data a1 + (p - data a)"
  from g(2) have r: "raw_on h1 ?g (?g + n)" by (simp add: gapped_def)
  from fillConstruct_spec [OF _ r, of v] npos
  obtain h2 where h2: "fillConstruct h1 ?g (?g + n) v = Some h2"
    "blocks h2 = blocks h1" "brk h2 = brk h1"
    "\<And>q. cells h2 q = (if ?g \<le> q \<and> q < ?g + n then Some (Live ((\<lambda>t. v) (q - ?g)))
                         else cells h1 q)"
    by auto
  from fill_gap [OF g(2) h2(2,3,4)]
  have f: "array_ok cfg h2 (a1\<lparr>nUsed := nUsed a1 + n\<rparr>)"
    "elems h2 (a1\<lparr>nUsed := nUsed a1 + n\<rparr>)
       = take (nat (?g - data a1)) (elems h a) @ map (\<lambda>t. Some v) [0 ..< nat n]
           @ drop (nat (?g - data a1)) (elems h a)"
    by simp_all
  have st: "size_type cfg (nUsed a1 + n) = nUsed a1 + n"
    using n g(3) ok by (intro size_type_id [OF cfg] representable_nonneg) (auto simp: array_ok_def)
  have run: "insert_n cfg h a p n v = Ok (h2, a1\<lparr>nUsed := nUsed a1 + n\<rparr>) ?g"
    using g(1) h2(1) st by (simp add: insert_n_def and_then_def of_option_def)
  have "map (\<lambda>t. Some v) [0 ..< nat n] = replicate (nat n) (Some v)"
    by (simp add: map_replicate_const)
  then show ?thesis
    using run f g(3,4) by (simp add: begin_a_def)
qed

lemma insert_value_ok:
  assumes cfg: "cfg_ok cfg" and ok: "array_ok cfg h a"
    and p: "begin_a a \<le> p" "p \<le> end_a a" and n: "nUsed a + 1 \<le> size_max cfg"
    and fits: "nUsed a + 1 \<le> nAllocated a \<or> nAllocated a + 1 \<le> max_size cfg"
    and bf: "bytes_fit cfg (max_size cfg)"
  shows "\<exists>h' a'. insert_value cfg h a p v = Ok (h', a') (data a' + (p - data a)) \<and>
           array_ok cfg h' a' \<and> nUsed a' = nUsed a + 1 \<and>
           elems h' a' = take (nat (p - begin_a a)) (elems h a) @ [Some v]
                           @ drop (nat (p - begin_a a)) (elems h a) \<and>
           (nAllocated a \<le> max_size cfg \<longrightarrow> nAllocated a' \<le> max_size cfg)"
proof -
  have one: "(0::int) < 1" by simp
  from insertGapAt_spec [OF cfg ok p one n fits bf]
  obtain h1 a1 where g: "insertGapAt cfg h a p 1 = Ok (h1, a1) (data a1 + (p - data a))"
    "gapped cfg h1 a1 (data a1 + (p - data a)) 1 (elems h a)" "nUsed a1 = nUsed a"
    "nAllocated a \<le> max_size cfg \<longrightarrow> nAllocated a1 \<le> max_size cfg"
    by blast
  let ?g = "data a1 + (p - data a)"
  from g(2) have r: "cells h1 ?g = Some Raw" by (simp add: gapped_def raw_on_def)
  define h2 where "h2 = h1\<lparr>cells := (cells h1)(?g := Some (Live v)), events := events h1 @ [Constructed (?g)]\<rparr>"
  have c: "construct h1 ?g v = Some h2" using r by (simp add: construct_Raw h2_def)
  have h2: "blocks h2 = blocks h1" "brk h2 = brk h1"
    "\<And>q. cells h2 q = (if ?g \<le> q \<and> q < ?g + 1 then Some (Live ((\<lambda>t. v) (q - ?g)))
                         else cells h1 q)"
    by (auto simp: h2_def)
  from fill_gap [OF g(2) h2]
  have f: "array_ok cfg h2 (a1\<lparr>nUsed := nUsed a1 + 1\<rparr>)"
    "elems h2 (a1\<lparr>nUsed := nUsed a1 + 1\<rparr>)
       = take (nat (?g - data a1)) (elems h a) @ map (\<lambda>t. Some v) [0 ..< nat 1]
           @ drop (nat (?g - data a1)) (elems h a)"
    by simp_all
  have st: "size_type cfg (nUsed a1 + 1) = nUsed a1 + 1"
    using n g(3) ok by (intro size_type_id [OF cfg] representable_nonneg) (auto simp: array_ok_def)
  have run: "insert_value cfg h a p v = Ok (h2, a1\<lparr>nUsed := nUsed a1 + 1\<rparr>) ?g"
    using g(1) c st by (simp add: insert_value_def and_then_def of_option_def)
  show ?thesis
    using run f g(3,4) by (simp add: begin_a_def)
qed

lemma gapped_at_end:
  assumes ok: "array_ok cfg h a" and n: "0 < n" "nUsed a + n \<le> nAllocated a"
  shows "gapped cfg h a (data a + nUsed a) n (elems h a)"
proof (rule gappedI)
  from ok have u: "0 \<le> nUsed a" "nAllocated a \<le> size_max cfg" "0 < brk h"
    and live: "live_on h (data a) (data a + nUsed a)"
    and raw: "raw_on h (data a + nUsed a) (data a + nAllocated a)"
    by (simp_all add: array_ok_def)
  have "nAllocated a \<noteq> 0" using u n by auto
  with ok have blk: "0 < data a" "data a + nAllocated a \<le> brk h"
    "blocks h (data a) = Some (nAllocated a)"
    by (simp_all add: array_ok_def)
  show "0 \<le> nUsed a" "0 < n" "nUsed a + n \<le> nAllocated a" "nAllocated a \<le> size_max cfg"
    "0 < brk h" "0 < data a" "data a + nAllocated a \<le> brk h"
    "blocks h (data a) = Some (nAllocated a)" "data a \<le> data a + nUsed a"
    "data a + nUsed a \<le> data a + nUsed a" "live_on h (data a) (data a + nUsed a)"
    "length (elems h a) = nat (nUsed a)"
    using u n blk live by (simp_all add: length_elems)
  show "raw_on h (data a + nUsed a) (data a + nUsed a + n)"
    using raw n by (auto simp: raw_on_def)
  show "live_on h (data a + nUsed a + n) (data a + nUsed a + n)" by (auto simp: live_on_def)
  show "raw_on h (data a + nUsed a + n) (data a + nAllocated a)"
    using raw n by (auto simp: raw_on_def)
  show "\<And>t. 0 \<le> t \<and> t < nUsed a \<Longrightarrow>
         elems h a ! nat t
           = deref h (if data a + t < data a + nUsed a then data a + t else data a + t + n)"
    by (simp add: elems_nth)
qed

lemma resize_ok:
  assumes cfg: "cfg_ok cfg" and ok: "array_ok cfg h a" and sz: "0 \<le> sz" "sz \<le> size_max cfg"
    and bf: "sz \<le> nAllocated a \<or> bytes_fit cfg sz"
  shows "\<exists>h' a'. resize cfg h a sz v = Ok (h', a') () \<and> array_ok cfg h' a' \<and>
           nUsed a' = sz \<and> nAllocated a' = max (nAllocated a) sz \<and>
           elems h' a' = take (nat sz) (elems h a) @ replicate (nat (sz - nUsed a)) (Some v)"
proof -
  from ok have u: "0 \<le> nUsed a" "nUsed a \<le> nAllocated a" by (simp_all add: array_ok_def)
  have len: "length (elems h a) = nat (nUsed a)" by (rule length_elems)
  consider "sz = nUsed a" | "sz \<noteq> nUsed a" "sz = 0" | "sz \<noteq> 0" "sz < nUsed a" | "nUsed a < sz"
    by linarith
  then show ?thesis
  proof cases
    case 1
    then show ?thesis using ok u len by (simp add: resize_def max_def)
  next
    case 2
    from clear_ok [OF ok] obtain h' where
      "clear h a = Some (h', a\<lparr>nUsed := 0\<rparr>)" "array_ok cfg h' (a\<lparr>nUsed := 0\<rparr>)"
      "elems h' (a\<lparr>nUsed := 0\<rparr>) = []"
      by blast
    then show ?thesis using 2 u by (simp add: resize_def of_option_def max_def)
  next
    case 3
    have r: "begin_a a \<le> data a + sz" "data a + sz \<le> end_a a" "end_a a \<le> end_a a"
      using 3 sz by (simp_all add: begin_a_def end_a_def)
    from erase_range_ok [OF cfg ok r]
    obtain h' where e:
      "erase_range cfg h a (data a + sz) (end_a a)
         = Ok (h', a\<lparr>nUsed := nUsed a - (end_a a - (data a + sz))\<rparr>) (data a + sz)"
      "array_ok cfg h' (a\<lparr>nUsed := nUsed a - (end_a a - (data a + sz))\<rparr>)"
      "elems h' (a\<lparr>nUsed := nUsed a - (end_a a - (data a + sz))\<rparr>)
         = take (nat (data a + sz - begin_a a)) (elems h a)
             @ drop (nat (end_a a - begin_a a)) (elems h a)"
      by blast
    have k: "nUsed a - (end_a a - (data a + sz)) = sz" by (simp add: end_a_def)
    have d: "drop (nat (end_a a - begin_a a)) (elems h a) = []"
      by (simp add: begin_a_def end_a_def len)
    have t: "nat (data a + sz - begin_a a) = nat sz" by (simp add: begin_a_def)
    show ?thesis
      using 3 e u unfolding k d t
      by (simp add: resize_def and_then_def max_def)
  next
    case 4
    have "\<exists>h1 a1. reserve cfg h a sz = Ok (h1, a1) () \<and> array_ok cfg h1 a1 \<and> nUsed a1 = nUsed a \<and>
            nAllocated a1 = max (nAllocated a) sz \<and> elems h1 a1 = elems h a"
    proof (cases "nAllocated a < sz")
      case True
      with bf have "bytes_fit cfg sz" by simp
      from reserve_grows [OF ok True sz(2) this] show ?thesis using True by auto
    next
      case False
      then show ?thesis using ok by (simp add: reserve_def max_def)
    qed
    then obtain h1 a1 where r: "reserve cfg h a sz = Ok (h1, a1) ()" "array_ok cfg h1 a1"
      "nUsed a1 = nUsed a" "nAllocated a1 = max (nAllocated a) sz" "elems h1 a1 = elems h a"
      by blast
    have n: "0 < sz - nUsed a1" "nUsed a1 + (sz - nUsed a1) \<le> nAllocated a1"
      using 4 r(3,4) by simp_all
    note g = gapped_at_end [OF r(2) n]
    from g have raw: "raw_on h1 (data a1 + nUsed a1) (data a1 + nUsed a1 + (sz - nUsed a1))"
      by (simp add: gapped_def)
    from fillConstruct_spec [OF _ raw, of v] n
    obtain h2 where h2: "fillConstruct h1 (data a1 + nUsed a1) (data a1 + nUsed a1 + (sz - nUsed a1)) v
                           = Some h2"
      "blocks h2 = blocks h1" "brk h2 = brk h1"
      "\<And>q. cells h2 q = (if data a1 + nUsed a1 \<le> q \<and> q < data a1 + nUsed a1 + (sz - nUsed a1)
                           then Some (Live ((\<lambda>t. v) (q - (data a1 + nUsed a1))))
                           else cells h1 q)"
      by auto
    from fill_gap [OF g h2(2,3,4)]
    have f: "array_ok cfg h2 (a1\<lparr>nUsed := nUsed a1 + (sz - nUsed a1)\<rparr>)"
      "elems h2 (a1\<lparr>nUsed := nUsed a1 + (sz - nUsed a1)\<rparr>)
         = take (nat (data a1 + nUsed a1 - data a1)) (elems h1 a1)
             @ map (\<lambda>t. Some v) [0 ..< nat (sz - nUsed a1)]
             @ drop (nat (data a1 + nUsed a1 - data a1)) (elems h1 a1)"
      by simp_all
    have e1: "data a1 + nUsed a1 + (sz - nUsed a1) = data a1 + sz"
      "nUsed a1 + (sz - nUsed a1) = sz" by simp_all
    have run: "resize cfg h a sz v = Ok (h2, a1\<lparr>nUsed := sz\<rparr>) ()"
      using 4 sz u r(1) h2(1) unfolding e1
      by (simp add: resize_def and_then_def of_option_def)
    have "take (nat sz) (elems h a) = elems h a" using 4 len by simp
    moreover have "map (\<lambda>t. Some v) [0 ..< nat (sz - nUsed a1)] = replicate (nat (sz - nUsed a)) (Some v)"
      by (simp add: map_replicate_const r(3))
    ultimately show ?thesis
      using run f r(3,4,5) len unfolding e1 by simp
  qed
qed

text \<open>
  Ordinary erasure keeps the order. For a well-formed container, \<^verbatim>\<open>erase(p)\<close> at the position
  of an element and \<^verbatim>\<open>erase(first, last1)\<close> for a range of its elements return the position
  given; the elements are the former ones without those erased, in their order; the length
  goes down by the number erased; capacity and buffer stay.
\<close>

theorem erase_preserves_order:
  assumes "cfg_ok cfg" and "array_ok cfg h a"
  shows "(begin_a a \<le> p \<and> p < end_a a \<longrightarrow>
            (\<exists>h' a'. erase cfg h a p = Ok (h', a') p \<and>
               size_a a' = size_a a - 1 \<and> capacity a' = capacity a \<and> data a' = data a \<and>
               elems h' a' = take (nat (p - begin_a a)) (elems h a)
                               @ drop (Suc (nat (p - begin_a a))) (elems h a) \<and>
               array_ok cfg h' a')) \<and>
         (begin_a a \<le> first \<and> first \<le> last1 \<and> last1 \<le> end_a a \<longrightarrow>
            (\<exists>h' a'. erase_range cfg h a first last1 = Ok (h', a') first \<and>
               size_a a' = size_a a - (last1 - first) \<and> capacity a' = capacity a \<and>
               data a' = data a \<and>
               elems h' a' = take (nat (first - begin_a a)) (elems h a)
                               @ drop (nat (last1 - begin_a a)) (elems h a) \<and>
               array_ok cfg h' a'))"
proof (intro conjI impI)
  assume "begin_a a \<le> p \<and> p < end_a a"
  then have p: "begin_a a \<le> p" "p < end_a a" by simp_all
  from erase_ok [OF assms p] obtain h' where
    "erase cfg h a p = Ok (h', a\<lparr>nUsed := nUsed a - 1\<rparr>) p"
    "array_ok cfg h' (a\<lparr>nUsed := nUsed a - 1\<rparr>)"
    "elems h' (a\<lparr>nUsed := nUsed a - 1\<rparr>)
       = take (nat (p - begin_a a)) (elems h a) @ drop (Suc (nat (p - begin_a a))) (elems h a)"
    by blast
  then show "\<exists>h' a'. erase cfg h a p = Ok (h', a') p \<and>
               size_a a' = size_a a - 1 \<and> capacity a' = capacity a \<and> data a' = data a \<and>
               elems h' a' = take (nat (p - begin_a a)) (elems h a)
                               @ drop (Suc (nat (p - begin_a a))) (elems h a) \<and>
               array_ok cfg h' a'"
    by (intro exI [of _ h'] exI [of _ "a\<lparr>nUsed := nUsed a - 1\<rparr>"])
       (simp add: size_a_def capacity_def)
next
  assume "begin_a a \<le> first \<and> first \<le> last1 \<and> last1 \<le> end_a a"
  then have r: "begin_a a \<le> first" "first \<le> last1" "last1 \<le> end_a a" by simp_all
  from erase_range_ok [OF assms r] obtain h' where
    "erase_range cfg h a first last1 = Ok (h', a\<lparr>nUsed := nUsed a - (last1 - first)\<rparr>) first"
    "array_ok cfg h' (a\<lparr>nUsed := nUsed a - (last1 - first)\<rparr>)"
    "elems h' (a\<lparr>nUsed := nUsed a - (last1 - first)\<rparr>)
       = take (nat (first - begin_a a)) (elems h a) @ drop (nat (last1 - begin_a a)) (elems h a)"
    by blast
  then show "\<exists>h' a'. erase_range cfg h a first last1 = Ok (h', a') first \<and>
               size_a a' = size_a a - (last1 - first) \<and> capacity a' = capacity a \<and>
               data a' = data a \<and>
               elems h' a' = take (nat (first - begin_a a)) (elems h a)
                               @ drop (nat (last1 - begin_a a)) (elems h a) \<and>
               array_ok cfg h' a'"
    by (intro exI [of _ h'] exI [of _ "a\<lparr>nUsed := nUsed a - (last1 - first)\<rparr>"])
       (simp add: size_a_def capacity_def)
qed

lemma six_pushed:
  "\<exists>h a. push_back_all (IndexTraits_int True 4) empty_heap Array_default [1, 2, 3, 4, 5, 6 :: int]
            = Ok (h, a) () \<and>
         array_ok (IndexTraits_int True 4) h a \<and> nUsed a = 6 \<and>
         elems h a = [Some 1, Some 2, Some 3, Some 4, Some 5, Some 6]"
  using pushed_int [of "[1, 2, 3, 4, 5, 6 :: int]" True] by (simp del: push_back_all.simps)

lemma nat_numerals: "nat 1 = Suc 0" "nat 2 = Suc (Suc 0)" "nat 3 = Suc (Suc (Suc 0))"
  by simp_all

lemma replicate_numerals: "replicate 2 x = [x, x]" "replicate 3 x = [x, x, x]"
  by (simp_all add: numeral_2_eq_2 numeral_3_eq_3)

text \<open>On 1, 2, 3, 4, 5, 6: erasing position 2, and erasing positions 1 and 2.\<close>

theorem erase_preserves_order_witness:
  "(case push_back_all (IndexTraits_int True 4) empty_heap Array_default [1, 2, 3, 4, 5, 6 :: int] of
      Ok (h, a) u \<Rightarrow>
        (\<exists>h' a'. erase (IndexTraits_int True 4) h a (begin_a a + 2) = Ok (h', a') (begin_a a + 2) \<and>
           size_a a' = 5 \<and> elems h' a' = [Some 1, Some 2, Some 4, Some 5, Some 6]) \<and>
        (\<exists>h' a'. erase_range (IndexTraits_int True 4) h a (begin_a a + 1) (begin_a a + 3)
                    = Ok (h', a') (begin_a a + 1) \<and>
           size_a a' = 4 \<and> elems h' a' = [Some 1, Some 4, Some 5, Some 6])
    | _ \<Rightarrow> False)"
proof -
  let ?cfg = "IndexTraits_int True 4"
  from six_pushed obtain h a where
    r: "push_back_all ?cfg empty_heap Array_default [1, 2, 3, 4, 5, 6 :: int] = Ok (h, a) ()"
    "array_ok ?cfg h a" "nUsed a = 6" "elems h a = [Some 1, Some 2, Some 3, Some 4, Some 5, Some 6]"
    by blast
  have p: "begin_a a \<le> begin_a a + 2 \<and> begin_a a + 2 < end_a a"
    "begin_a a \<le> begin_a a + 1 \<and> begin_a a + 1 \<le> begin_a a + 3 \<and> begin_a a + 3 \<le> end_a a"
    using r(3) by (simp_all add: begin_a_def end_a_def)
  from erase_preserves_order [OF cfg_ok_int r(2), of "begin_a a + 2" "begin_a a + 1" "begin_a a + 3"] p
  have "(\<exists>h' a'. erase ?cfg h a (begin_a a + 2) = Ok (h', a') (begin_a a + 2) \<and>
           size_a a' = 5 \<and> elems h' a' = [Some 1, Some 2, Some 4, Some 5, Some 6]) \<and>
        (\<exists>h' a'. erase_range ?cfg h a (begin_a a + 1) (begin_a a + 3)
                    = Ok (h', a') (begin_a a + 1) \<and>
           size_a a' = 4 \<and> elems h' a' = [Some 1, Some 4, Some 5, Some 6])"
    using r(3,4) by (auto simp: size_a_def nat_numerals)
  with r(1) show ?thesis by (simp del: push_back_all.simps)
qed

text \<open>
  Inserting copies of a value. For a well-formed container within \<open>max_size\<close> and a position
  \<open>p\<close> in \<open>[begin, end]\<close> (and an element type for which a buffer of \<open>max_size\<close> elements
  has a number of bytes that \<^verbatim>\<open>size_t\<close> holds): \<^verbatim>\<open>insert(p, n, value)\<close> succeeds when the \<open>n\<close> new elements fit
  the spare capacity, or when capacity plus \<open>n\<close> does not exceed \<open>max_size\<close> (what
  \<^verbatim>\<open>calcNewCapacityForGrowthBy\<close> checks); it returns the position of the first new element,
  at the same index as \<open>p\<close>, and the elements are the former ones with \<open>n\<close> copies of the
  value put in before index \<open>p - begin\<close>. \<^verbatim>\<open>insert(p, value)\<close> is the case \<open>n = 1\<close>.
\<close>

theorem insert_spec:
  assumes "cfg_ok cfg" and "array_ok cfg h a" and "capacity a \<le> max_size cfg"
    and "begin_a a \<le> p" and "p \<le> end_a a" and "bytes_fit cfg (max_size cfg)"
  shows "(0 \<le> n \<and> size_a a + n \<le> size_max cfg \<and>
          (size_a a + n \<le> capacity a \<or> capacity a + n \<le> max_size cfg) \<longrightarrow>
            (\<exists>h' a' g. insert_n cfg h a p n v = Ok (h', a') g \<and> g - data a' = p - data a \<and>
               size_a a' = size_a a + n \<and> capacity a' \<le> max_size cfg \<and>
               elems h' a' = take (nat (p - begin_a a)) (elems h a) @ replicate (nat n) (Some v)
                               @ drop (nat (p - begin_a a)) (elems h a) \<and>
               array_ok cfg h' a')) \<and>
         (size_a a + 1 \<le> capacity a \<or> capacity a + 1 \<le> max_size cfg \<longrightarrow>
            (\<exists>h' a' g. insert_value cfg h a p v = Ok (h', a') g \<and> g - data a' = p - data a \<and>
               size_a a' = size_a a + 1 \<and> capacity a' \<le> max_size cfg \<and>
               elems h' a' = take (nat (p - begin_a a)) (elems h a) @ [Some v]
                               @ drop (nat (p - begin_a a)) (elems h a) \<and>
               array_ok cfg h' a'))"
proof (intro conjI impI)
  assume "0 \<le> n \<and> size_a a + n \<le> size_max cfg \<and>
          (size_a a + n \<le> capacity a \<or> capacity a + n \<le> max_size cfg)"
  then have n: "0 \<le> n" "nUsed a + n \<le> size_max cfg"
    "nUsed a + n \<le> nAllocated a \<or> nAllocated a + n \<le> max_size cfg"
    by (simp_all add: size_a_def capacity_def)
  from insert_n_ok [OF assms(1,2,4,5) n assms(6), of v] assms(3)
  obtain h' a' where r: "insert_n cfg h a p n v = Ok (h', a') (data a' + (p - data a))"
    "array_ok cfg h' a'" "nUsed a' = nUsed a + n"
    "elems h' a' = take (nat (p - begin_a a)) (elems h a) @ replicate (nat n) (Some v)
                           @ drop (nat (p - begin_a a)) (elems h a)"
    "nAllocated a' \<le> max_size cfg"
    by (auto simp: capacity_def)
  then show "\<exists>h' a' g. insert_n cfg h a p n v = Ok (h', a') g \<and> g - data a' = p - data a \<and>
               size_a a' = size_a a + n \<and> capacity a' \<le> max_size cfg \<and>
               elems h' a' = take (nat (p - begin_a a)) (elems h a) @ replicate (nat n) (Some v)
                               @ drop (nat (p - begin_a a)) (elems h a) \<and>
               array_ok cfg h' a'"
    by (intro exI [of _ h'] exI [of _ a'] exI [of _ "data a' + (p - data a)"])
       (simp add: size_a_def capacity_def)
next
  assume f: "size_a a + 1 \<le> capacity a \<or> capacity a + 1 \<le> max_size cfg"
  from assms(1) have m: "max_size cfg \<le> size_max cfg" by (simp add: cfg_ok_def)
  from assms(2) have "nUsed a \<le> nAllocated a" "nAllocated a \<le> size_max cfg"
    by (simp_all add: array_ok_def)
  with f m have n: "nUsed a + 1 \<le> size_max cfg"
    "nUsed a + 1 \<le> nAllocated a \<or> nAllocated a + 1 \<le> max_size cfg"
    by (auto simp: size_a_def capacity_def)
  from insert_value_ok [OF assms(1,2,4,5) n assms(6), of v] assms(3)
  obtain h' a' where r: "insert_value cfg h a p v = Ok (h', a') (data a' + (p - data a))"
    "array_ok cfg h' a'" "nUsed a' = nUsed a + 1"
    "elems h' a' = take (nat (p - begin_a a)) (elems h a) @ [Some v]
                           @ drop (nat (p - begin_a a)) (elems h a)"
    "nAllocated a' \<le> max_size cfg"
    by (auto simp: capacity_def)
  then show "\<exists>h' a' g. insert_value cfg h a p v = Ok (h', a') g \<and> g - data a' = p - data a \<and>
               size_a a' = size_a a + 1 \<and> capacity a' \<le> max_size cfg \<and>
               elems h' a' = take (nat (p - begin_a a)) (elems h a) @ [Some v]
                               @ drop (nat (p - begin_a a)) (elems h a) \<and>
               array_ok cfg h' a'"
    by (intro exI [of _ h'] exI [of _ a'] exI [of _ "data a' + (p - data a)"])
       (simp add: size_a_def capacity_def)
qed

text \<open>On 1, 2, 3: three copies of 7, and one, inserted at position 1.\<close>

theorem insert_spec_witness:
  "(case push_back_all (IndexTraits_int True 4) empty_heap Array_default [1, 2, 3 :: int] of
      Ok (h, a) u \<Rightarrow>
        (\<exists>h' a' g. insert_n (IndexTraits_int True 4) h a (begin_a a + 1) 3 7 = Ok (h', a') g \<and>
           size_a a' = 6 \<and>
           elems h' a' = [Some 1, Some 7, Some 7, Some 7, Some 2, Some 3]) \<and>
        (\<exists>h' a' g. insert_value (IndexTraits_int True 4) h a (begin_a a + 1) 7 = Ok (h', a') g \<and>
           size_a a' = 4 \<and> elems h' a' = [Some 1, Some 7, Some 2, Some 3])
    | _ \<Rightarrow> False)"
proof -
  let ?cfg = "IndexTraits_int True 4"
  from three_pushed [of True] obtain h a where
    r: "push_back_all ?cfg empty_heap Array_default [1, 2, 3 :: int] = Ok (h, a) ()"
    "array_ok ?cfg h a" "nUsed a = 3" "nAllocated a = 4" "elems h a = [Some 1, Some 2, Some 3]"
    by blast
  have c: "capacity a \<le> max_size ?cfg" "begin_a a \<le> begin_a a + 1" "begin_a a + 1 \<le> end_a a"
    "bytes_fit ?cfg (max_size ?cfg)"
    using r(3,4)
    by (simp_all add: capacity_def begin_a_def end_a_def IndexTraits_int_def bytes_fit_def)
  have s: "size_max ?cfg = 2147483647" "max_size ?cfg = 2147483647"
    by (simp_all add: IndexTraits_int_def size_max_def)
  from insert_spec [OF cfg_ok_int r(2) c, of 3 7]
  have "(\<exists>h' a' g. insert_n ?cfg h a (begin_a a + 1) 3 7 = Ok (h', a') g \<and>
           size_a a' = 6 \<and>
           elems h' a' = [Some 1, Some 7, Some 7, Some 7, Some 2, Some 3]) \<and>
        (\<exists>h' a' g. insert_value ?cfg h a (begin_a a + 1) 7 = Ok (h', a') g \<and>
           size_a a' = 4 \<and> elems h' a' = [Some 1, Some 7, Some 2, Some 3])"
    using r(3,4,5) by (auto simp: size_a_def capacity_def s nat_numerals replicate_numerals)
  with r(1) show ?thesis by (simp del: push_back_all.simps)
qed

text \<open>
  Resizing with a fill value, for a well-formed container and a size \<open>sz\<close> that is a
  nonnegative value of the size type (not above the capacity, or with a number of bytes that
  \<^verbatim>\<open>size_t\<close> holds): the length becomes \<open>sz\<close>; the elements are the first
  \<open>sz\<close> former ones, followed by copies of the value when \<open>sz\<close> is larger than the former
  length; the capacity is the larger of the former capacity and \<open>sz\<close> (it is never
  reduced, and, as in \<^verbatim>\<open>reserve\<close>, not compared with \<open>max_size\<close>).
\<close>

theorem resize_spec:
  assumes "cfg_ok cfg" and "array_ok cfg h a" and "0 \<le> sz" and "sz \<le> size_max cfg"
    and "sz \<le> capacity a \<or> bytes_fit cfg sz"
  shows "\<exists>h' a'. resize cfg h a sz v = Ok (h', a') () \<and>
           size_a a' = sz \<and> capacity a' = max (capacity a) sz \<and>
           elems h' a' = take (nat sz) (elems h a) @ replicate (nat (sz - size_a a)) (Some v) \<and>
           array_ok cfg h' a'"
proof -
  from assms(5) have "sz \<le> nAllocated a \<or> bytes_fit cfg sz" by (simp add: capacity_def)
  from resize_ok [OF assms(1,2,3,4) this, of v]
  obtain h' a' where r: "resize cfg h a sz v = Ok (h', a') ()" "array_ok cfg h' a'"
    "nUsed a' = sz" "nAllocated a' = max (nAllocated a) sz"
    "elems h' a' = take (nat sz) (elems h a) @ replicate (nat (sz - nUsed a)) (Some v)"
    by blast
  show ?thesis
    unfolding size_a_def capacity_def
    by (intro exI [of _ h'] exI [of _ a'] conjI) (rule r)+
qed

text \<open>On 1, 2, 3 (capacity 4): resizing to 5 with the value 0, and to 1.\<close>

theorem resize_spec_witness:
  "(case push_back_all (IndexTraits_int True 4) empty_heap Array_default [1, 2, 3 :: int] of
      Ok (h, a) u \<Rightarrow>
        (\<exists>h' a'. resize (IndexTraits_int True 4) h a 5 0 = Ok (h', a') () \<and>
           capacity a' = 5 \<and> elems h' a' = [Some 1, Some 2, Some 3, Some 0, Some 0]) \<and>
        (\<exists>h' a'. resize (IndexTraits_int True 4) h a 1 0 = Ok (h', a') () \<and>
           capacity a' = 4 \<and> elems h' a' = [Some 1])
    | _ \<Rightarrow> False)"
proof -
  let ?cfg = "IndexTraits_int True 4"
  from three_pushed [of True] obtain h a where
    r: "push_back_all ?cfg empty_heap Array_default [1, 2, 3 :: int] = Ok (h, a) ()"
    "array_ok ?cfg h a" "nUsed a = 3" "nAllocated a = 4" "elems h a = [Some 1, Some 2, Some 3]"
    by blast
  have s: "(0::int) \<le> 5" "5 \<le> size_max ?cfg" "(0::int) \<le> 1" "1 \<le> size_max ?cfg"
    by (simp_all add: IndexTraits_int_def size_max_def)
  have b: "5 \<le> capacity a \<or> bytes_fit ?cfg 5" "1 \<le> capacity a \<or> bytes_fit ?cfg 1"
    by (simp_all add: bytes_fit_int)
  from resize_spec [OF cfg_ok_int r(2) s(1,2) b(1), of 0]
    resize_spec [OF cfg_ok_int r(2) s(3,4) b(2), of 0]
  have "(\<exists>h' a'. resize ?cfg h a 5 0 = Ok (h', a') () \<and>
           capacity a' = 5 \<and> elems h' a' = [Some 1, Some 2, Some 3, Some 0, Some 0]) \<and>
        (\<exists>h' a'. resize ?cfg h a 1 0 = Ok (h', a') () \<and>
           capacity a' = 4 \<and> elems h' a' = [Some 1])"
    using r(3,4,5) by (auto simp: size_a_def capacity_def replicate_numerals nat_numerals)
  with r(1) show ?thesis by (simp del: push_back_all.simps)
qed

text \<open>
  A well-formed state whose capacity is within \<open>max_size\<close> satisfies the invariants of the
  data model: (a), (b) and (d), and (c) as a statement on the slots: those of
  \<open>[begin, end)\<close> hold live elements, those from \<open>end\<close> to the end of the block are raw.
\<close>

theorem well_formed_invariants:
  assumes "array_ok cfg h a" and "capacity a \<le> max_size cfg"
  shows "invariants cfg a \<and> live_on h (begin_a a) (end_a a) \<and>
         raw_on h (end_a a) (begin_a a + capacity a)"
  using assms by (auto simp: array_ok_def invariants_def capacity_def begin_a_def end_a_def)

text \<open>At the container holding 1, 2, 3.\<close>

theorem well_formed_invariants_witness:
  "(case push_back_all (IndexTraits_int True 4) empty_heap Array_default [1, 2, 3 :: int] of
      Ok (h, a) u \<Rightarrow>
        invariants (IndexTraits_int True 4) a \<and> live_on h (begin_a a) (end_a a) \<and>
        raw_on h (end_a a) (begin_a a + capacity a)
    | _ \<Rightarrow> False)"
proof -
  let ?cfg = "IndexTraits_int True 4"
  from three_pushed [of True] obtain h a where
    r: "push_back_all ?cfg empty_heap Array_default [1, 2, 3 :: int] = Ok (h, a) ()"
    "array_ok ?cfg h a" "nAllocated a = 4"
    by blast
  have "capacity a \<le> max_size ?cfg" using r(3) by (simp add: capacity_def IndexTraits_int_def)
  from well_formed_invariants [OF r(2) this] r(1)
  show ?thesis by (simp del: push_back_all.simps)
qed

end
